theory Spec2Isabelle
  imports Main "HOL-Library.Char_ord" "HOL-Library.List_Lexorder"
begin

section \<open>The syntax tree\<close>

text \<open>
  The fixers work on the tree that \<open>ast.parse\<close> returns. A node is an object with an
  identity, a class, scalar attributes and fields that hold child nodes. The model keeps
  all of that in one generic shape, so that \<open>ast.walk\<close>, \<open>ast.iter_fields\<close> and the
  replacement of a node read as they do in Python:

  \<^item> \<open>meta\<close> holds the object identity (\<open>nid\<close>, what \<open>is\<close> compares) and the four location
    attributes. \<open>lineno = None\<close> and \<open>col_offset = None\<close> mean that the attribute is
    absent (as on a node built by a constructor call); \<open>end_lineno\<close> and
    \<open>end_col_offset\<close> then hold Python's \<open>None\<close>.
  \<^item> \<open>kind\<close> is the node class together with its scalar fields (an identifier, a
    constant, an operator written as the name of its class).
  \<^item> the fields that hold nodes are listed in the order of \<open>_fields\<close>: a field with one
    node (\<open>Single\<close>), an optional field that is \<open>None\<close> (\<open>Missing\<close>), a list of nodes
    (\<open>Items\<close>) and a list whose items may be \<open>None\<close> (\<open>OptItems\<close>: the keys of a dict
    display, the defaults of keyword-only arguments).

  The field lists per class are: \<open>Module [body]\<close>; \<open>FunctionDef [args, body,
  decorator_list, returns]\<close>; \<open>Arguments [posonlyargs, args, vararg, kwonlyargs,
  kw_defaults, kwarg, defaults]\<close>; \<open>Arg [annotation]\<close>; \<open>Return [value]\<close>;
  \<open>Assign [targets, value]\<close>; \<open>AnnAssign [target, annotation, value]\<close>;
  \<open>For [target, iter, body, orelse]\<close>; \<open>If_stmt [test, body, orelse]\<close>; \<open>Expr [value]\<close>;
  \<open>Import [names]\<close>; \<open>ImportFrom [names]\<close>; \<open>Call [func, args, keywords]\<close>;
  \<open>Attribute [value]\<close>; \<open>Subscript [value, slice]\<close>; \<open>List_expr\<close>, \<open>Set_expr\<close>,
  \<open>Tuple [elts]\<close>; \<open>Dict [keys, values]\<close>; \<open>BinOp [left, right]\<close>;
  \<open>Compare [left, comparators]\<close>; \<open>BoolOp [values]\<close>; \<open>IfExp [test, body, orelse]\<close>.
  Every other class is \<open>Other name has_location\<close> with its node fields in order.

  Expression contexts (\<open>Load\<close>, \<open>Store\<close>) and operator objects are nodes in Python too.
  They carry no location, match none of the classes the code tests for and are never
  the node that is looked up or replaced, so the walk of the model leaves them out. The
  \<open>type_ignores\<close> of a module are empty for a tree parsed without type comments.
\<close>

datatype pyconst =
    CNone | CBool bool | CInt int | CFloat string | CComplex string
  | CStr string | CBytes string | CEllipsis

record meta =
  nid :: nat
  lineno :: "nat option"
  col_offset :: "nat option"
  end_lineno :: "nat option"
  end_col_offset :: "nat option"

datatype kind =
    Module
  | FunctionDef string
  | Arguments
  | Arg string
  | Return
  | Assign
  | AnnAssign
  | For
  | If_stmt
  | Expr
  | Import
  | ImportFrom "string option" "nat option"
  | Alias string "string option"
  | Constant pyconst
  | Name string
  | Call
  | Attribute string
  | Subscript
  | List_expr
  | Set_expr
  | Tuple
  | Dict
  | BinOp string
  | Compare "string list"
  | BoolOp string
  | IfExp
  | Other string bool

datatype 'n slot = Single 'n | Missing | Items "'n list" | OptItems "'n option list"

datatype node = Node (meta_of: meta) (kind_of: kind) (fields_of: "node slot list")

definition ident :: "node \<Rightarrow> nat" where
  "ident n = nid (meta_of n)"

text \<open>\<open>ast.iter_child_nodes\<close> and the breadth-first \<open>ast.walk\<close> with its queue.\<close>

fun slot_nodes :: "'n slot \<Rightarrow> 'n list" where
  "slot_nodes (Single n) = [n]"
| "slot_nodes Missing = []"
| "slot_nodes (Items ns) = ns"
| "slot_nodes (OptItems os) = List.map_filter id os"

definition iter_child_nodes :: "node \<Rightarrow> node list" where
  "iter_child_nodes n = concat (map slot_nodes (fields_of n))"

lemma size_slot_nodes: "sum_list (map f (slot_nodes s)) \<le> size_slot f s"
proof (cases s)
  case (Items ns)
  then show ?thesis by (simp add: size_list_conv_sum_list)
next
  case (OptItems os)
  have "sum_list (map f (List.map_filter id os)) \<le> size_list (size_option f) os"
    by (induction os) (auto split: option.splits)
  with OptItems show ?thesis by simp
qed simp_all

lemma size_children: "sum_list (map size (iter_child_nodes n)) < size n"
proof -
  have "sum_list (map size (concat (map slot_nodes ss))) \<le> size_list (size_slot size) ss" for ss :: "node slot list"
  proof (induction ss)
    case (Cons s ss)
    then show ?case using size_slot_nodes [of size s] by simp
  qed simp
  then show ?thesis by (cases n) (simp add: iter_child_nodes_def le_imp_less_Suc)
qed

function walk_queue :: "node list \<Rightarrow> node list" where
  "walk_queue [] = []"
| "walk_queue (n # todo) = n # walk_queue (todo @ iter_child_nodes n)"
  by pat_completeness auto
termination
  by (relation "measure (\<lambda>q. sum_list (map size q))") (simp_all add: size_children)

definition walk :: "node \<Rightarrow> node list" where
  "walk n = walk_queue [n]"


text \<open>The nodes of a tree, by structure: the root and, with a node, its children.\<close>

inductive_set nodes_of :: "node \<Rightarrow> node set" for t :: node where
  root: "t \<in> nodes_of t"
| child: "n \<in> nodes_of t \<Longrightarrow> c \<in> set (iter_child_nodes n) \<Longrightarrow> c \<in> nodes_of t"

subsection \<open>Views: \<open>isinstance\<close> tests with field access\<close>

text \<open>
  \<open>as_C n\<close> is \<open>Some\<close> of the fields of \<open>n\<close> when \<open>n\<close> is an instance of class \<open>C\<close>, and
  \<open>None\<close> otherwise.
\<close>

definition as_Constant :: "node \<Rightarrow> pyconst option" where
  "as_Constant n = (case n of Node m (Constant v) [] \<Rightarrow> Some v | _ \<Rightarrow> None)"

definition as_Name :: "node \<Rightarrow> string option" where
  "as_Name n = (case n of Node m (Name i) [] \<Rightarrow> Some i | _ \<Rightarrow> None)"

definition as_Call :: "node \<Rightarrow> (node \<times> node list \<times> node list) option" where
  "as_Call n = (case n of Node m Call [Single func, Items args, Items keywords] \<Rightarrow>
                    Some (func, args, keywords) | _ \<Rightarrow> None)"

definition as_Attribute :: "node \<Rightarrow> (node \<times> string) option" where
  "as_Attribute n = (case n of Node m (Attribute attr) [Single v] \<Rightarrow> Some (v, attr) | _ \<Rightarrow> None)"

definition as_Subscript :: "node \<Rightarrow> (node \<times> node) option" where
  "as_Subscript n = (case n of Node m Subscript [Single v, Single sl] \<Rightarrow> Some (v, sl) | _ \<Rightarrow> None)"

definition as_List :: "node \<Rightarrow> node list option" where
  "as_List n = (case n of Node m List_expr [Items elts] \<Rightarrow> Some elts | _ \<Rightarrow> None)"

definition as_Set :: "node \<Rightarrow> node list option" where
  "as_Set n = (case n of Node m Set_expr [Items elts] \<Rightarrow> Some elts | _ \<Rightarrow> None)"

definition as_Tuple :: "node \<Rightarrow> node list option" where
  "as_Tuple n = (case n of Node m Tuple [Items elts] \<Rightarrow> Some elts | _ \<Rightarrow> None)"

definition as_Dict :: "node \<Rightarrow> (node option list \<times> node list) option" where
  "as_Dict n = (case n of Node m Dict [OptItems keys, Items vals] \<Rightarrow> Some (keys, vals) | _ \<Rightarrow> None)"

definition as_BinOp :: "node \<Rightarrow> (node \<times> string \<times> node) option" where
  "as_BinOp n = (case n of Node m (BinOp op) [Single l, Single r] \<Rightarrow> Some (l, op, r) | _ \<Rightarrow> None)"

definition as_Compare :: "node \<Rightarrow> (node \<times> string list \<times> node list) option" where
  "as_Compare n = (case n of Node m (Compare ops) [Single l, Items comparators] \<Rightarrow>
                       Some (l, ops, comparators) | _ \<Rightarrow> None)"

definition as_BoolOp :: "node \<Rightarrow> (string \<times> node list) option" where
  "as_BoolOp n = (case n of Node m (BoolOp op) [Items vals] \<Rightarrow> Some (op, vals) | _ \<Rightarrow> None)"

definition as_IfExp :: "node \<Rightarrow> (node \<times> node \<times> node) option" where
  "as_IfExp n = (case n of Node m IfExp [Single t, Single b, Single e] \<Rightarrow> Some (t, b, e) | _ \<Rightarrow> None)"

definition as_Return :: "node \<Rightarrow> node option option" where
  "as_Return n = (case n of Node m Return [Single v] \<Rightarrow> Some (Some v)
                          | Node m Return [Missing] \<Rightarrow> Some None | _ \<Rightarrow> None)"

definition as_Assign :: "node \<Rightarrow> (node list \<times> node) option" where
  "as_Assign n = (case n of Node m Assign [Items targets, Single v] \<Rightarrow> Some (targets, v) | _ \<Rightarrow> None)"

definition as_For :: "node \<Rightarrow> (node \<times> node \<times> node list \<times> node list) option" where
  "as_For n = (case n of Node m For [Single t, Single it, Items b, Items e] \<Rightarrow> Some (t, it, b, e)
                       | _ \<Rightarrow> None)"

definition as_If :: "node \<Rightarrow> (node \<times> node list \<times> node list) option" where
  "as_If n = (case n of Node m If_stmt [Single t, Items b, Items e] \<Rightarrow> Some (t, b, e) | _ \<Rightarrow> None)"

text \<open>\<open>returns\<close> is \<open>None\<close> for a function without a return annotation.\<close>

definition as_FunctionDef :: "node \<Rightarrow> (string \<times> node \<times> node list \<times> node list \<times> node option) option" where
  "as_FunctionDef n =
     (case n of
        Node m (FunctionDef name) [Single args, Items b, Items decos, Single r] \<Rightarrow>
          Some (name, args, b, decos, Some r)
      | Node m (FunctionDef name) [Single args, Items b, Items decos, Missing] \<Rightarrow>
          Some (name, args, b, decos, None)
      | _ \<Rightarrow> None)"

section \<open>Type algebra: unification of type strings\<close>

text \<open>
  Types are the strings the inference engine builds (\<open>''int''\<close>, \<open>''List[Any]''\<close>, ...).
  Python compares strings by code point, shorter prefix first; on the UTF-8 bytes of a
  \<open>string\<close> that is the lexicographic order of \<open>List_Lexorder\<close> over \<open>Char_ord\<close>.
\<close>

text \<open>\<open>sep.join(xs)\<close>\<close>

fun join :: "string \<Rightarrow> string list \<Rightarrow> string" where
  "join sep [] = []"
| "join sep [x] = x"
| "join sep (x # y # ys) = x @ sep @ join sep (y # ys)"

text \<open>
  \<open>TypeInferrer._unify_types\<close>. The argument is a Python set of strings;
  \<open>types.pop()\<close> is only reached when the set has exactly one member.
\<close>

definition unify_types :: "string set \<Rightarrow> string" where
  "unify_types types =
     (if types = {} then ''Any''
      else let types' = Set.filter (\<lambda>t. t \<noteq> ''Any'') types in
        if types' = {} then ''Any''
        else if card types' = 1 then the_elem types'
        else if types' \<subseteq> {''int'', ''float''}
          then (if ''float'' \<in> types' then ''float'' else ''int'')
        else ''Union['' @ join '', '' (sorted_list_of_set types') @ '']'')"

section \<open>TypeInferrer\<close>

text \<open>
  The inferrer object has two attributes, \<open>strict\<close> and \<open>type_cache\<close>; every method takes
  the object and returns it with the result. \<open>_infer_expr_type\<close> and
  \<open>_lookup_variable_type\<close> call each other, and an assignment such as \<open>n = n + 1\<close> makes
  that recursion endless: Python then raises \<open>RecursionError\<close>. The model counts the
  remaining call depth (\<open>depth\<close>) and returns \<open>Inl RecursionError\<close> when it is used up.
  \<open>ast.unparse\<close> belongs to the Python library and is a parameter.
\<close>

datatype error = RecursionError

type_synonym cache = "string \<rightharpoonup> string"

record TypeInferrer =
  strict :: bool
  type_cache :: cache

fun type_name :: "pyconst \<Rightarrow> string" where
  "type_name CNone = ''NoneType''"
| "type_name (CBool b) = ''bool''"
| "type_name (CInt i) = ''int''"
| "type_name (CFloat r) = ''float''"
| "type_name (CComplex r) = ''complex''"
| "type_name (CStr s) = ''str''"
| "type_name (CBytes s) = ''bytes''"
| "type_name CEllipsis = ''ellipsis''"

definition python_type_to_typing :: "string \<Rightarrow> string" where
  "python_type_to_typing py_type =
     (if py_type = ''NoneType'' then ''None''
      else if py_type = ''list'' then ''List[Any]''
      else if py_type = ''dict'' then ''Dict[str, Any]''
      else if py_type = ''set'' then ''Set[Any]''
      else if py_type = ''tuple'' then ''Tuple[Any, ...]''
      else py_type)"

definition truthy :: "string option \<Rightarrow> bool" where
  "truthy t = (case t of None \<Rightarrow> False | Some s \<Rightarrow> s \<noteq> [])"

definition find_assignments :: "string \<Rightarrow> node \<Rightarrow> node list" where
  "find_assignments var_name tree =
     concat (map (\<lambda>node. case as_Assign node of
                     Some (targets, v) \<Rightarrow>
                       map (\<lambda>target. node) (filter (\<lambda>target. as_Name target = Some var_name) targets)
                   | None \<Rightarrow> [])
                 (walk tree))"

definition find_function :: "string \<Rightarrow> node \<Rightarrow> node option" where
  "find_function func_name tree =
     find (\<lambda>node. case as_FunctionDef node of
                    Some (name, args, b, decos, r) \<Rightarrow> name = func_name
                  | None \<Rightarrow> False)
          (walk tree)"

fun mapM_state :: "('s \<Rightarrow> 'a \<Rightarrow> error + ('b \<times> 's)) \<Rightarrow> 's \<Rightarrow> 'a list \<Rightarrow> error + ('b list \<times> 's)" where
  "mapM_state f s [] = Inr ([], s)"
| "mapM_state f s (x # xs) =
     (case f s x of
        Inl e \<Rightarrow> Inl e
      | Inr (y, s') \<Rightarrow>
          (case mapM_state f s' xs of
             Inl e \<Rightarrow> Inl e
           | Inr (ys, s'') \<Rightarrow> Inr (y # ys, s'')))"

definition type_set :: "string option list \<Rightarrow> string set" where
  "type_set ts = set (List.map_filter id ts)"

definition default_type :: "TypeInferrer \<Rightarrow> string option" where
  "default_type self = (if \<not> strict self then Some ''Any'' else None)"

fun infer_expr_type ::
    "(node \<Rightarrow> string) \<Rightarrow> nat \<Rightarrow> TypeInferrer \<Rightarrow> node \<Rightarrow> node \<Rightarrow> error + (string option \<times> TypeInferrer)"
  and lookup_variable_type ::
    "(node \<Rightarrow> string) \<Rightarrow> nat \<Rightarrow> TypeInferrer \<Rightarrow> string \<Rightarrow> node \<Rightarrow> error + (string option \<times> TypeInferrer)"
where
  "infer_expr_type unparse 0 self expr context = Inl RecursionError"
| "infer_expr_type unparse (Suc depth) self expr context =
    (case as_Constant expr of
       Some v \<Rightarrow> Inr (Some (python_type_to_typing (type_name v)), self)
     | None \<Rightarrow>
    (case as_Name expr of
       Some i \<Rightarrow> lookup_variable_type unparse depth self i context
     | None \<Rightarrow>
    (case as_Call expr of
       Some (func, args, keywords) \<Rightarrow>
         (case as_Name func of
            Some func_name \<Rightarrow>
              if func_name \<in> {''str'', ''int'', ''float'', ''bool'', ''list'', ''dict'', ''set''}
              then Inr (Some (python_type_to_typing func_name), self)
              else (case find_function func_name context of
                      Some func_def \<Rightarrow>
                        (case as_FunctionDef func_def of
                           Some (name, fargs, b, decos, Some r) \<Rightarrow> Inr (Some (unparse r), self)
                         | _ \<Rightarrow> Inr (default_type self, self))
                    | None \<Rightarrow> Inr (default_type self, self))
          | None \<Rightarrow> Inr (default_type self, self))
     | None \<Rightarrow>
    (case as_List expr of
       Some elts \<Rightarrow>
         (case mapM_state (\<lambda>s e. infer_expr_type unparse depth s e context) self elts of
            Inl e \<Rightarrow> Inl e
          | Inr (ts, self') \<Rightarrow>
              if elts \<noteq> [] \<and> card (type_set ts) = 1
              then Inr (Some (''List['' @ the_elem (type_set ts) @ '']''), self')
              else Inr (Some ''List[Any]'', self'))
     | None \<Rightarrow>
    (case as_Dict expr of
       Some (keys, vals) \<Rightarrow>
         (case mapM_state (\<lambda>s e. infer_expr_type unparse depth s e context) self
                 (List.map_filter id keys) of
            Inl e \<Rightarrow> Inl e
          | Inr (kts, self') \<Rightarrow>
         (case mapM_state (\<lambda>s e. infer_expr_type unparse depth s e context) self' vals of
            Inl e \<Rightarrow> Inl e
          | Inr (vts, self'') \<Rightarrow>
              let key_type = (if card (type_set kts) = 1 then the_elem (type_set kts) else ''str'');
                  val_type = (if card (type_set vts) = 1 then the_elem (type_set vts) else ''Any'')
              in Inr (Some (''Dict['' @ key_type @ '', '' @ val_type @ '']''), self'')))
     | None \<Rightarrow>
    (case as_Set expr of
       Some elts \<Rightarrow>
         (case mapM_state (\<lambda>s e. infer_expr_type unparse depth s e context) self elts of
            Inl e \<Rightarrow> Inl e
          | Inr (ts, self') \<Rightarrow>
              if elts \<noteq> [] \<and> card (type_set ts) = 1
              then Inr (Some (''Set['' @ the_elem (type_set ts) @ '']''), self')
              else Inr (Some ''Set[Any]'', self'))
     | None \<Rightarrow>
    (case as_Tuple expr of
       Some elts \<Rightarrow>
         (case mapM_state (\<lambda>s e. infer_expr_type unparse depth s e context) self elts of
            Inl e \<Rightarrow> Inl e
          | Inr (ts, self') \<Rightarrow>
              if list_all truthy ts
              then Inr (Some (''Tuple['' @ join '', '' (map the ts) @ '']''), self')
              else Inr (Some ''Tuple[Any, ...]'', self'))
     | None \<Rightarrow>
    (case as_BinOp expr of
       Some (left, op, right) \<Rightarrow>
         (case infer_expr_type unparse depth self left context of
            Inl e \<Rightarrow> Inl e
          | Inr (left_type, self') \<Rightarrow>
         (case infer_expr_type unparse depth self' right context of
            Inl e \<Rightarrow> Inl e
          | Inr (right_type, self'') \<Rightarrow>
              if op \<in> {''Add'', ''Sub'', ''Mult'', ''Div''}
                 \<and> (left_type \<in> {Some ''int'', Some ''float''}
                      \<or> right_type \<in> {Some ''int'', Some ''float''})
              then Inr (Some (if Some ''float'' \<in> {left_type, right_type} then ''float'' else ''int''),
                        self'')
              else Inr (default_type self'', self'')))
     | None \<Rightarrow>
    (case as_Compare expr of
       Some c \<Rightarrow> Inr (Some ''bool'', self)
     | None \<Rightarrow>
    (case as_BoolOp expr of
       Some b \<Rightarrow> Inr (Some ''bool'', self)
     | None \<Rightarrow>
    (case as_IfExp expr of
       Some (test, body, orelse) \<Rightarrow>
         (case infer_expr_type unparse depth self body context of
            Inl e \<Rightarrow> Inl e
          | Inr (body_type, self') \<Rightarrow>
         (case infer_expr_type unparse depth self' orelse context of
            Inl e \<Rightarrow> Inl e
          | Inr (else_type, self'') \<Rightarrow>
              if truthy body_type \<and> truthy else_type
              then (if body_type = else_type then Inr (body_type, self'')
                    else Inr (Some (unify_types {the body_type, the else_type}), self''))
              else Inr (default_type self'', self'')))
     | None \<Rightarrow> Inr (default_type self, self))))))))))))"
| "lookup_variable_type unparse 0 self var_name context = Inl RecursionError"
| "lookup_variable_type unparse (Suc depth) self var_name context =
    (case type_cache self var_name of
       Some t \<Rightarrow> Inr (Some t, self)
     | None \<Rightarrow>
        (case find_assignments var_name context of
           [] \<Rightarrow> Inr (None, self)
         | a # assignments \<Rightarrow>
            (case as_Assign a of
               None \<Rightarrow> Inr (None, self)
             | Some (targets, v) \<Rightarrow>
                (case infer_expr_type unparse depth self v context of
                   Inl e \<Rightarrow> Inl e
                 | Inr (var_type, self') \<Rightarrow>
                     if truthy var_type
                     then Inr (var_type, self'\<lparr>type_cache := (type_cache self')(var_name \<mapsto> the var_type)\<rparr>)
                     else Inr (None, self')))))"


text \<open>The loop of \<open>infer_return_type\<close> over \<open>ast.walk(func)\<close>.\<close>

fun collect_returns ::
    "(node \<Rightarrow> string) \<Rightarrow> nat \<Rightarrow> node \<Rightarrow> node list \<Rightarrow> string set \<times> bool \<times> TypeInferrer
       \<Rightarrow> error + (string set \<times> bool \<times> TypeInferrer)" where
  "collect_returns unparse depth func [] acc = Inr acc"
| "collect_returns unparse depth func (node # rest) (return_types, has_none_return, self) =
    (case as_Return node of
       None \<Rightarrow> collect_returns unparse depth func rest (return_types, has_none_return, self)
     | Some None \<Rightarrow> collect_returns unparse depth func rest (return_types, True, self)
     | Some (Some v) \<Rightarrow>
        (case infer_expr_type unparse depth self v func of
           Inl e \<Rightarrow> Inl e
         | Inr (ret_type, self') \<Rightarrow>
             collect_returns unparse depth func rest
               (if truthy ret_type then insert (the ret_type) return_types else return_types,
                has_none_return, self')))"

definition infer_return_type ::
    "(node \<Rightarrow> string) \<Rightarrow> nat \<Rightarrow> TypeInferrer \<Rightarrow> node \<Rightarrow> error + (string option \<times> TypeInferrer)" where
  "infer_return_type unparse depth self func =
    (case collect_returns unparse depth func (walk func) ({}, False, self) of
       Inl e \<Rightarrow> Inl e
     | Inr (return_types, has_none_return, self') \<Rightarrow>
         if return_types = {} \<and> \<not> has_none_return then Inr (Some ''None'', self')
         else if return_types = {} then Inr (Some ''None'', self')
         else if card return_types = 1 then
           (let ret_type = the_elem return_types
            in if has_none_return then Inr (Some (''Optional['' @ ret_type @ '']''), self')
               else Inr (Some ret_type, self'))
         else
           (let unified = unify_types return_types
            in if has_none_return then Inr (Some (''Optional['' @ unified @ '']''), self')
               else Inr (Some unified, self')))"

datatype pattern =
    MethodCall string
  | SubscriptAccess "string option"
  | Iteration
  | BinaryOp string

fun analyze_param_usage_loop ::
    "(node \<Rightarrow> string) \<Rightarrow> nat \<Rightarrow> string \<Rightarrow> node \<Rightarrow> node list \<Rightarrow> pattern list \<times> TypeInferrer
       \<Rightarrow> error + (pattern list \<times> TypeInferrer)" where
  "analyze_param_usage_loop unparse depth param_name func [] acc = Inr acc"
| "analyze_param_usage_loop unparse depth param_name func (node # rest) (patterns, self) =
    (case as_Call node of
       Some (f, args, keywords) \<Rightarrow>
         (case as_Attribute f of
            Some (v, attr) \<Rightarrow>
              if as_Name v = Some param_name
              then analyze_param_usage_loop unparse depth param_name func rest
                     (patterns @ [MethodCall attr], self)
              else analyze_param_usage_loop unparse depth param_name func rest (patterns, self)
          | None \<Rightarrow> analyze_param_usage_loop unparse depth param_name func rest (patterns, self))
     | None \<Rightarrow>
    (case as_Subscript node of
       Some (v, sl) \<Rightarrow>
         if as_Name v = Some param_name
         then (case infer_expr_type unparse depth self sl func of
                 Inl e \<Rightarrow> Inl e
               | Inr (key_type, self') \<Rightarrow>
                   analyze_param_usage_loop unparse depth param_name func rest
                     (patterns @ [SubscriptAccess key_type], self'))
         else analyze_param_usage_loop unparse depth param_name func rest (patterns, self)
     | None \<Rightarrow>
    (case as_For node of
       Some (t, it, b, e) \<Rightarrow>
         if as_Name it = Some param_name
         then analyze_param_usage_loop unparse depth param_name func rest (patterns @ [Iteration], self)
         else analyze_param_usage_loop unparse depth param_name func rest (patterns, self)
     | None \<Rightarrow>
    (case as_BinOp node of
       Some (l, op, r) \<Rightarrow>
         if as_Name l = Some param_name
         then analyze_param_usage_loop unparse depth param_name func rest (patterns @ [BinaryOp op], self)
         else analyze_param_usage_loop unparse depth param_name func rest (patterns, self)
     | None \<Rightarrow> analyze_param_usage_loop unparse depth param_name func rest (patterns, self)))))"

definition analyze_param_usage ::
    "(node \<Rightarrow> string) \<Rightarrow> nat \<Rightarrow> TypeInferrer \<Rightarrow> string \<Rightarrow> node \<Rightarrow> error + (pattern list \<times> TypeInferrer)" where
  "analyze_param_usage unparse depth self param_name func =
     analyze_param_usage_loop unparse depth param_name func (walk func) ([], self)"

fun infer_from_patterns :: "TypeInferrer \<Rightarrow> pattern list \<Rightarrow> string option" where
  "infer_from_patterns self [] = default_type self"
| "infer_from_patterns self (p # patterns) =
    (case p of
       MethodCall method \<Rightarrow>
         if method \<in> {''lower'', ''upper'', ''strip'', ''split'', ''replace''} then Some ''str''
         else if method \<in> {''append'', ''extend'', ''pop'', ''remove''} then Some ''List[Any]''
         else if method \<in> {''get'', ''keys'', ''values'', ''items''} then Some ''Dict[str, Any]''
         else infer_from_patterns self patterns
     | SubscriptAccess key_type \<Rightarrow>
         if key_type = Some ''int'' then Some ''List[Any]''
         else if key_type = Some ''str'' then Some ''Dict[str, Any]''
         else infer_from_patterns self patterns
     | Iteration \<Rightarrow> Some ''Iterable[Any]''
     | BinaryOp op \<Rightarrow>
         if op \<in> {''Add'', ''Sub'', ''Mult'', ''Div''} then Some ''int''
         else infer_from_patterns self patterns)"

definition infer_param_type ::
    "(node \<Rightarrow> string) \<Rightarrow> nat \<Rightarrow> TypeInferrer \<Rightarrow> string \<Rightarrow> node \<Rightarrow> error + (string option \<times> TypeInferrer)" where
  "infer_param_type unparse depth self param_name func =
    (case analyze_param_usage unparse depth self param_name func of
       Inl e \<Rightarrow> Inl e
     | Inr (patterns, self') \<Rightarrow>
         if patterns = [] then Inr (default_type self', self')
         else Inr (infer_from_patterns self' patterns, self'))"

text \<open>The loop of \<open>infer_variable_type\<close> over the assignments found.\<close>

fun collect_assigned_types ::
    "(node \<Rightarrow> string) \<Rightarrow> nat \<Rightarrow> node \<Rightarrow> node list \<Rightarrow> string set \<times> TypeInferrer
       \<Rightarrow> error + (string set \<times> TypeInferrer)" where
  "collect_assigned_types unparse depth tree [] acc = Inr acc"
| "collect_assigned_types unparse depth tree (assign # rest) (types, self) =
    (case as_Assign assign of
       None \<Rightarrow> collect_assigned_types unparse depth tree rest (types, self)
     | Some (targets, v) \<Rightarrow>
        (case infer_expr_type unparse depth self v tree of
           Inl e \<Rightarrow> Inl e
         | Inr (value_type, self') \<Rightarrow>
             collect_assigned_types unparse depth tree rest
               (if truthy value_type then insert (the value_type) types else types, self')))"

definition infer_variable_type_rest ::
    "(node \<Rightarrow> string) \<Rightarrow> nat \<Rightarrow> TypeInferrer \<Rightarrow> string \<Rightarrow> node \<Rightarrow> error + (string option \<times> TypeInferrer)" where
  "infer_variable_type_rest unparse depth self var_name tree =
    (case collect_assigned_types unparse depth tree (find_assignments var_name tree) ({}, self) of
       Inl e \<Rightarrow> Inl e
     | Inr (types, self') \<Rightarrow>
         if types = {} then Inr (default_type self', self')
         else Inr (Some (unify_types types), self'))"

definition infer_variable_type ::
    "(node \<Rightarrow> string) \<Rightarrow> nat \<Rightarrow> TypeInferrer \<Rightarrow> string \<Rightarrow> node \<Rightarrow> node
       \<Rightarrow> error + (string option \<times> TypeInferrer)" where
  "infer_variable_type unparse depth self var_name context tree =
    (case as_Assign context of
       Some (targets, v) \<Rightarrow>
         (case infer_expr_type unparse depth self v tree of
            Inl e \<Rightarrow> Inl e
          | Inr (value_type, self') \<Rightarrow>
              if truthy value_type \<and> value_type \<noteq> Some ''Any'' then Inr (value_type, self')
              else infer_variable_type_rest unparse depth self' var_name tree)
     | None \<Rightarrow> infer_variable_type_rest unparse depth self var_name tree)"

subsection \<open>Usage patterns, one node at a time\<close>



subsection \<open>One inferrer serving a batch\<close>

text \<open>
  \<open>TypeGuardianRunner.auto_fix_all\<close> builds one \<open>MissingHintsFixer\<close>, and with it one
  \<open>TypeInferrer\<close>, before its loop over the files (runner.py, line 102). The fixer calls
  the inferrer through \<open>infer_return_type\<close>, \<open>infer_param_type\<close> and
  \<open>infer_variable_type\<close> only, so over a run the inferrer serves a list of such requests,
  each on the tree of the file at hand, and hands its state from one to the next.
\<close>

datatype request =
    ReturnType node
  | ParamType string node
  | VariableType string node node

fun serve ::
    "(node \<Rightarrow> string) \<Rightarrow> nat \<Rightarrow> TypeInferrer \<Rightarrow> request \<Rightarrow> error + (string option \<times> TypeInferrer)" where
  "serve unparse depth self (ReturnType func) = infer_return_type unparse depth self func"
| "serve unparse depth self (ParamType param_name func) =
     infer_param_type unparse depth self param_name func"
| "serve unparse depth self (VariableType var_name context tree) =
     infer_variable_type unparse depth self var_name context tree"

definition serve_batch ::
    "(node \<Rightarrow> string) \<Rightarrow> nat \<Rightarrow> TypeInferrer \<Rightarrow> request list
       \<Rightarrow> error + (string option list \<times> TypeInferrer)" where
  "serve_batch unparse depth self requests = mapM_state (serve unparse depth) self requests"

text \<open>
  \<open>keeps b K s\<close>: the inferrer \<open>s\<close> has strictness \<open>b\<close> and its cache holds every entry
  of \<open>K\<close>.
\<close>

definition keeps :: "bool \<Rightarrow> cache \<Rightarrow> TypeInferrer \<Rightarrow> bool" where
  "keeps b K s \<longleftrightarrow> strict s = b \<and> K \<subseteq>\<^sub>m type_cache s"

section \<open>Fixers\<close>

subsection \<open>Diagnostics\<close>

record diagnostic =
  category :: string
  line :: nat
  message :: string
  context_name :: "string option"

subsection \<open>Identity, location and in-place mutation\<close>

text \<open>
  \<open>located\<close> is the metadata of a parsed node, \<open>unlocated\<close> that of a node built by a
  constructor call. A new object gets an identity that no node of the tree has.
  \<open>ast.copy_location\<close> copies \<open>lineno\<close> and \<open>col_offset\<close> when the old node has them
  and the two end attributes always, for classes that declare location attributes.
\<close>

definition located :: "nat \<Rightarrow> nat \<Rightarrow> meta" where
  "located i l = \<lparr>nid = i, lineno = Some l, col_offset = Some 0,
                  end_lineno = Some l, end_col_offset = Some 0\<rparr>"

definition unlocated :: "nat \<Rightarrow> meta" where
  "unlocated i = \<lparr>nid = i, lineno = None, col_offset = None,
                  end_lineno = None, end_col_offset = None\<rparr>"

definition fresh_id :: "node \<Rightarrow> nat" where
  "fresh_id tree = Suc (fold max (map ident (walk tree)) 0)"

fun has_location_attributes :: "kind \<Rightarrow> bool" where
  "has_location_attributes Module = False"
| "has_location_attributes Arguments = False"
| "has_location_attributes (Other name has_attrs) = has_attrs"
| "has_location_attributes k = True"

definition copy_location :: "node \<Rightarrow> node \<Rightarrow> node" where
  "copy_location new_node old_node =
     (if has_location_attributes (kind_of old_node) \<and> has_location_attributes (kind_of new_node)
      then Node ((meta_of new_node)
                   \<lparr>lineno := (if lineno (meta_of old_node) \<noteq> None then lineno (meta_of old_node)
                                else lineno (meta_of new_node)),
                    col_offset := (if col_offset (meta_of old_node) \<noteq> None
                                   then col_offset (meta_of old_node)
                                   else col_offset (meta_of new_node)),
                    end_lineno := end_lineno (meta_of old_node),
                    end_col_offset := end_col_offset (meta_of old_node)\<rparr>)
                (kind_of new_node) (fields_of new_node)
      else new_node)"

text \<open>
  The inner loops of \<open>_replace_node\<close> over the fields of one parent: the first slot that
  holds the old node (by identity) is overwritten; \<open>None\<close> when no slot holds it.
\<close>

fun replace_in_list :: "nat \<Rightarrow> node \<Rightarrow> node list \<Rightarrow> node list option" where
  "replace_in_list old new [] = None"
| "replace_in_list old new (item # items) =
     (if ident item = old then Some (new # items)
      else map_option ((#) item) (replace_in_list old new items))"

fun replace_in_opt_list :: "nat \<Rightarrow> node \<Rightarrow> node option list \<Rightarrow> node option list option" where
  "replace_in_opt_list old new [] = None"
| "replace_in_opt_list old new (item # items) =
     (if map_option ident item = Some old then Some (Some new # items)
      else map_option ((#) item) (replace_in_opt_list old new items))"

fun replace_in_fields :: "nat \<Rightarrow> node \<Rightarrow> node slot list \<Rightarrow> node slot list option" where
  "replace_in_fields old new [] = None"
| "replace_in_fields old new (Single v # rest) =
     (if ident v = old then Some (Single new # rest)
      else map_option ((#) (Single v)) (replace_in_fields old new rest))"
| "replace_in_fields old new (Missing # rest) =
     map_option ((#) Missing) (replace_in_fields old new rest)"
| "replace_in_fields old new (Items vs # rest) =
     (case replace_in_list old new vs of
        Some vs' \<Rightarrow> Some (Items vs' # rest)
      | None \<Rightarrow> map_option ((#) (Items vs)) (replace_in_fields old new rest))"
| "replace_in_fields old new (OptItems vs # rest) =
     (case replace_in_opt_list old new vs of
        Some vs' \<Rightarrow> Some (OptItems vs' # rest)
      | None \<Rightarrow> map_option ((#) (OptItems vs)) (replace_in_fields old new rest))"

text \<open>
  Assigning to a field of a parent mutates that object. In a tree the object is the
  node with the parent's identity: \<open>set_fields obj fs\<close> gives it the fields \<open>fs\<close>.
\<close>

lemma size_in_slot: "z \<in> set_slot s \<Longrightarrow> f z < size_slot f s"
proof (cases s)
  case (Items ns)
  assume "z \<in> set_slot s"
  with Items have "z \<in> set ns" by simp
  then have "f z \<le> size_list f ns" by (induction ns) auto
  with Items show ?thesis by simp
next
  case (OptItems os)
  assume "z \<in> set_slot s"
  with OptItems have "Some z \<in> set os" by (auto simp: option.set_sel elim: option.set_cases)
  then have "f z < size_list (size_option f) os" by (induction os) auto
  with OptItems show ?thesis by simp
qed auto

lemma size_in_fields: "s \<in> set ss \<Longrightarrow> z \<in> set_slot s \<Longrightarrow> size z < size (Node m k ss)"
proof -
  assume s: "s \<in> set ss" and z: "z \<in> set_slot s"
  from s have "size_slot size s \<le> size_list (size_slot size) ss" by (induction ss) auto
  with size_in_slot [OF z, of size] show ?thesis by simp
qed

function set_fields :: "nat \<Rightarrow> node slot list \<Rightarrow> node \<Rightarrow> node" where
  "set_fields obj fs (Node m k slots) =
     (if nid m = obj then Node m k fs
      else Node m k (map (map_slot (set_fields obj fs)) slots))"
  by pat_completeness auto
termination
proof (relation "measure (\<lambda>(obj, fs, n). size n)")
  fix obj :: nat and fs :: "node slot list" and m k and slots :: "node slot list" and x and z :: node
  assume "x \<in> set slots" "z \<in> set_slot x"
  then have "size z < size (Node m k slots)" by (rule size_in_fields)
  then show "((obj, fs, z), (obj, fs, Node m k slots)) \<in> measure (\<lambda>(obj, fs, n). size n)"
    by simp
qed simp

text \<open>
  The outer loop \<open>for parent in ast.walk(tree)\<close>: the first parent one of whose fields
  holds the old node, with its fields after the overwrite.
\<close>

fun replace_in_parents :: "nat \<Rightarrow> node \<Rightarrow> node list \<Rightarrow> (nat \<times> node slot list) option" where
  "replace_in_parents old new [] = None"
| "replace_in_parents old new (parent # parents) =
     (case replace_in_fields old new (fields_of parent) of
        Some fs \<Rightarrow> Some (ident parent, fs)
      | None \<Rightarrow> replace_in_parents old new parents)"

definition replace_slot :: "node \<Rightarrow> nat \<Rightarrow> node \<Rightarrow> node" where
  "replace_slot tree old new =
     (case replace_in_parents old new (walk tree) of
        None \<Rightarrow> tree
      | Some (obj, fs) \<Rightarrow> set_fields obj fs tree)"

text \<open>
  The four copies of \<open>_replace_node\<close>. Those of \<open>OptionalFixer\<close> and \<open>CollectionFixer\<close>
  call \<open>ast.copy_location(new_node, old_node)\<close> after the overwrite; those of
  \<open>MissingHintsFixer\<close> and \<open>GenericFixer\<close> do not.
\<close>

definition OptionalFixer_replace_node :: "node \<Rightarrow> node \<Rightarrow> node \<Rightarrow> node" where
  "OptionalFixer_replace_node tree old_node new_node =
     replace_slot tree (ident old_node) (copy_location new_node old_node)"

definition CollectionFixer_replace_node :: "node \<Rightarrow> node \<Rightarrow> node \<Rightarrow> node" where
  "CollectionFixer_replace_node tree old_node new_node =
     replace_slot tree (ident old_node) (copy_location new_node old_node)"

definition MissingHintsFixer_replace_node :: "node \<Rightarrow> node \<Rightarrow> node \<Rightarrow> node" where
  "MissingHintsFixer_replace_node tree old_node new_node =
     replace_slot tree (ident old_node) new_node"

definition GenericFixer_replace_node :: "node \<Rightarrow> node \<Rightarrow> node \<Rightarrow> node" where
  "GenericFixer_replace_node tree old_node new_node =
     replace_slot tree (ident old_node) new_node"

subsection \<open>OptionalFixer\<close>

definition find_node_at_line :: "node \<Rightarrow> nat \<Rightarrow> node option" where
  "find_node_at_line tree l = find (\<lambda>node. lineno (meta_of node) = Some l) (walk tree)"

definition checks_none :: "node \<Rightarrow> string \<Rightarrow> bool" where
  "checks_none test var_name =
     (case as_Compare test of
        Some (left, ops, comparators) \<Rightarrow>
          as_Name left = Some var_name
          \<and> list_ex (\<lambda>op. op = ''IsNot'' \<or> op = ''Is'') ops
          \<and> list_ex (\<lambda>c. as_Constant c = Some CNone) comparators
      | None \<Rightarrow> False)"

definition node_in_body :: "node \<Rightarrow> node list \<Rightarrow> bool" where
  "node_in_body node body = list_ex (\<lambda>item. list_ex (\<lambda>child. ident child = ident node) (walk item)) body"

definition is_already_guarded :: "node \<Rightarrow> node \<Rightarrow> string \<Rightarrow> bool" where
  "is_already_guarded tree node var_name =
     list_ex (\<lambda>parent. case as_If parent of
                          Some (test, body, orelse) \<Rightarrow>
                            checks_none test var_name \<and> node_in_body node body
                        | None \<Rightarrow> False)
             (walk tree)"

definition fix_optional_attribute_access :: "node \<Rightarrow> node \<Rightarrow> node \<times> bool" where
  "fix_optional_attribute_access node tree =
     (case as_Attribute node of
        None \<Rightarrow> (tree, False)
      | Some (v, attr) \<Rightarrow>
         (case as_Name v of
            None \<Rightarrow> (tree, False)
          | Some var_name \<Rightarrow>
              if is_already_guarded tree node var_name then (tree, False)
              else
                let i = fresh_id tree;
                    none_check = Node (unlocated i) (Compare [''IsNot''])
                                   [Single (Node (unlocated (i + 1)) (Name var_name) []),
                                    Items [Node (unlocated (i + 2)) (Constant CNone) []]];
                    conditional = Node (unlocated (i + 3)) IfExp
                                   [Single none_check, Single node,
                                    Single (Node (unlocated (i + 4)) (Constant CNone) [])]
                in (OptionalFixer_replace_node tree node conditional, True)))"

definition fix_optional_call :: "node \<Rightarrow> node \<Rightarrow> node \<times> bool" where
  "fix_optional_call node tree =
     (case as_Call node of
        Some (func, args, keywords) \<Rightarrow>
          (case as_Attribute func of
             Some a \<Rightarrow> fix_optional_attribute_access func tree
           | None \<Rightarrow> (tree, False))
      | None \<Rightarrow> (tree, False))"

definition OptionalFixer_fix :: "diagnostic \<Rightarrow> node \<Rightarrow> node \<times> bool" where
  "OptionalFixer_fix error tree =
     (case find_node_at_line tree (line error) of
        None \<Rightarrow> (tree, False)
      | Some node \<Rightarrow>
          if as_Attribute node \<noteq> None then fix_optional_attribute_access node tree
          else if as_Call node \<noteq> None then fix_optional_call node tree
          else (tree, False))"

text \<open>
  For the statement about guards: the test is the comparison \<open>v is not None\<close>; and the
  access lies in the body of an \<open>if\<close> statement of the tree with that test.
\<close>

definition tests_is_not_None :: "node \<Rightarrow> string \<Rightarrow> bool" where
  "tests_is_not_None test v \<longleftrightarrow>
     (case as_Compare test of
        Some (left, ops, comparators) \<Rightarrow>
          as_Name left = Some v \<and> ops = [''IsNot'']
          \<and> map as_Constant comparators = [Some CNone]
      | None \<Rightarrow> False)"

definition in_body_of_guard :: "node \<Rightarrow> node \<Rightarrow> string \<Rightarrow> bool" where
  "in_body_of_guard tree access v \<longleftrightarrow>
     (\<exists>stmt \<in> nodes_of tree. \<exists>test body orelse.
        as_If stmt = Some (test, body, orelse)
        \<and> tests_is_not_None test v
        \<and> (\<exists>item \<in> set body. access \<in> nodes_of item))"

subsection \<open>ImportFixer\<close>

definition as_Module :: "node \<Rightarrow> node list option" where
  "as_Module n = (case n of Node m Module [Items body] \<Rightarrow> Some body | _ \<Rightarrow> None)"































subsection \<open>CollectionFixer\<close>

definition find_assignment :: "node \<Rightarrow> string \<Rightarrow> nat \<Rightarrow> node option" where
  "find_assignment tree var_name l =
     find (\<lambda>node. case as_Assign node of
                    Some (targets, v) \<Rightarrow>
                      lineno (meta_of node) = Some l
                      \<and> list_ex (\<lambda>target. as_Name target = Some var_name) targets
                  | None \<Rightarrow> False)
          (walk tree)"

definition get_expr_type :: "node \<Rightarrow> string option" where
  "get_expr_type node =
     (case as_Constant node of
        Some v \<Rightarrow> Some (type_name v)
      | None \<Rightarrow>
         (case as_Name node of
            Some i \<Rightarrow> None
          | None \<Rightarrow>
             (case as_Call node of
                Some (func, args, keywords) \<Rightarrow> as_Name func
              | None \<Rightarrow> None)))"

definition expr_types :: "node list \<Rightarrow> string set" where
  "expr_types nodes = set (filter (\<lambda>t. t \<noteq> []) (List.map_filter get_expr_type nodes))"

definition infer_from_literal :: "node \<Rightarrow> string option" where
  "infer_from_literal node =
     (case (case as_List node of Some elts \<Rightarrow> Some elts | None \<Rightarrow> as_Set node) of
        Some elts \<Rightarrow>
          if elts = [] then None
          else let types = expr_types elts
               in if card types = 1 then Some (the_elem types)
                  else if card types > 1
                       then Some (''Union['' @ join '', '' (sorted_list_of_set types) @ '']'')
                       else None
      | None \<Rightarrow> None)"

definition infer_dict_types :: "node option list \<Rightarrow> node list \<Rightarrow> string option \<times> string option" where
  "infer_dict_types keys vals =
     (if keys = [] then (None, None)
      else let pairs = zip keys vals;
               key_types = expr_types (List.map_filter fst pairs);
               val_types = expr_types (map snd pairs);
               key_result = (if card key_types = 1 then the_elem key_types else ''str'');
               val_result = (if card val_types = 1 then the_elem val_types else ''Any'')
           in (Some key_result, Some val_result))"

definition appended_arg :: "string \<Rightarrow> node \<Rightarrow> node option" where
  "appended_arg var_name node =
     (case as_Call node of
        Some (func, args, keywords) \<Rightarrow>
          (case as_Attribute func of
             Some (v, attr) \<Rightarrow>
               if as_Name v = Some var_name \<and> attr \<in> {''append'', ''add''}
               then (case args of [] \<Rightarrow> None | a # rest \<Rightarrow> Some a)
               else None
           | None \<Rightarrow> None)
      | None \<Rightarrow> None)"

definition infer_from_usage :: "node \<Rightarrow> string \<Rightarrow> string option" where
  "infer_from_usage tree var_name =
     (let appended_types = expr_types (List.map_filter (appended_arg var_name) (walk tree))
      in if card appended_types = 1 then Some (''List['' @ the_elem appended_types @ '']'')
         else if card appended_types > 1
              then Some (''List[Union['' @ join '', '' (sorted_list_of_set appended_types) @ '']]'')
              else None)"

definition infer_collection_type :: "node \<Rightarrow> node \<Rightarrow> string \<Rightarrow> string option" where
  "infer_collection_type node tree var_name =
     (case as_Assign node of
        None \<Rightarrow> None
      | Some (targets, v) \<Rightarrow>
          let literal =
                (if as_List v \<noteq> None \<or> as_Set v \<noteq> None then
                   (case infer_from_literal v of
                      Some element_type \<Rightarrow>
                        if element_type \<noteq> []
                        then Some ((if as_List v \<noteq> None then ''List'' else ''Set'')
                                   @ ''['' @ element_type @ '']'')
                        else None
                    | None \<Rightarrow> None)
                 else (case as_Dict v of
                         Some (keys, vals) \<Rightarrow>
                           (case infer_dict_types keys vals of
                              (Some key_type, Some val_type) \<Rightarrow>
                                if key_type \<noteq> [] \<and> val_type \<noteq> []
                                then Some (''Dict['' @ key_type @ '', '' @ val_type @ '']'')
                                else None
                            | _ \<Rightarrow> None)
                       | None \<Rightarrow> None))
          in case literal of
               Some t \<Rightarrow> Some t
             | None \<Rightarrow>
                (case infer_from_usage tree var_name of
                   Some usage_type \<Rightarrow> Some usage_type
                 | None \<Rightarrow>
                     if as_List v \<noteq> None then Some ''List[Any]''
                     else if as_Dict v \<noteq> None then Some ''Dict[str, Any]''
                     else if as_Set v \<noteq> None then Some ''Set[Any]''
                     else None))"

text \<open>
  \<open>_type_str_to_ast\<close>: \<open>ast.parse\<close> belongs to the Python library and is a parameter here;
  \<open>None\<close> is its \<open>SyntaxError\<close>.
\<close>

definition type_str_to_ast :: "(string \<Rightarrow> node option) \<Rightarrow> nat \<Rightarrow> string \<Rightarrow> node" where
  "type_str_to_ast parse i type_str =
     (case parse type_str of
        Some body \<Rightarrow> body
      | None \<Rightarrow> Node (unlocated i) (Name ''Any'') [])"

datatype index_error = IndexError

definition CollectionFixer_fix ::
    "(string \<Rightarrow> node option) \<Rightarrow> diagnostic \<Rightarrow> node \<Rightarrow> index_error + (node \<times> bool)" where
  "CollectionFixer_fix parse error tree =
     (case context_name error of
        None \<Rightarrow> Inr (tree, False)
      | Some var_name \<Rightarrow>
          if var_name = [] then Inr (tree, False)
          else
            (case find_assignment tree var_name (line error) of
               None \<Rightarrow> Inr (tree, False)
             | Some node \<Rightarrow>
                (case infer_collection_type node tree var_name of
                   None \<Rightarrow> Inr (tree, False)
                 | Some collection_type \<Rightarrow>
                     if collection_type = [] then Inr (tree, False)
                     else
                       (case as_Assign node of
                          Some (target # targets, v) \<Rightarrow>
                            let i = fresh_id tree;
                                ann_assign = Node (unlocated i) AnnAssign
                                  [Single target,
                                   Single (type_str_to_ast parse (Suc i) collection_type),
                                   Single v]
                            in Inr (CollectionFixer_replace_node tree node ann_assign, True)
                        | _ \<Rightarrow> Inl IndexError))))"

text \<open>
  For the statements about the fixer: a set of type names written as one name or as a
  sorted \<open>Union\<close>; the types of the first arguments of the \<open>append\<close> and \<open>add\<close> calls on
  a name anywhere in a tree; the element type of a display: from its elements when they
  yield one, else from the appended types when there are any, else \<open>Any\<close>; and the
  annotation expected for a list or set display: its own container around that element
  type.
\<close>

definition one_or_union :: "string set \<Rightarrow> string" where
  "one_or_union types =
     (if card types = 1 then the_elem types
      else ''Union['' @ join '', '' (sorted_list_of_set types) @ '']'')"

definition appended_types :: "node \<Rightarrow> string \<Rightarrow> string set" where
  "appended_types tree var_name =
     {t. \<exists>n \<in> nodes_of tree. \<exists>a. appended_arg var_name n = Some a
                                  \<and> get_expr_type a = Some t \<and> t \<noteq> []}"

definition container_name :: "node \<Rightarrow> string" where
  "container_name v = (if as_List v \<noteq> None then ''List'' else ''Set'')"

definition element_type :: "node list \<Rightarrow> node \<Rightarrow> string \<Rightarrow> string" where
  "element_type elts tree var_name =
     (if expr_types elts \<noteq> {} then one_or_union (expr_types elts)
      else if appended_types tree var_name \<noteq> {} then one_or_union (appended_types tree var_name)
      else ''Any'')"

definition expected_collection_type :: "node \<Rightarrow> node list \<Rightarrow> node \<Rightarrow> string \<Rightarrow> string" where
  "expected_collection_type v elts tree var_name =
     container_name v @ ''['' @ element_type elts tree var_name @ '']''"

section \<open>Concrete programs\<close>

text \<open>Small parsed trees, written out node by node, on which the code is evaluated.\<close>

definition name_at :: "nat \<Rightarrow> nat \<Rightarrow> string \<Rightarrow> node" where
  "name_at i l x = Node (located i l) (Name x) []"

definition one_param :: "nat \<Rightarrow> nat \<Rightarrow> string \<Rightarrow> node" where
  "one_param i l x =
     Node (unlocated i) Arguments
       [Items [], Items [Node (located (Suc i) l) (Arg x) [Missing]], Missing,
        Items [], OptItems [], Missing, Items []]"

text \<open>\<open>def f(x): return x\<close>\<close>

definition def_return_param :: node where
  "def_return_param =
     Node (located 1 1) (FunctionDef ''f'')
       [Single (one_param 2 1 ''x''),
        Items [Node (located 4 2) Return [Single (name_at 5 2 ''x'')]],
        Items [], Missing]"

text \<open>\<open>def f(p): p.append(1)\<close>\<close>

definition def_append :: node where
  "def_append =
     Node (located 1 1) (FunctionDef ''f'')
       [Single (one_param 2 1 ''p''),
        Items [Node (located 4 2) Expr
                 [Single (Node (located 5 2) Call
                    [Single (Node (located 6 2) (Attribute ''append'') [Single (name_at 7 2 ''p'')]),
                     Items [Node (located 8 2) (Constant (CInt 1)) []],
                     Items []])]],
        Items [], Missing]"

text \<open>\<open>def f(): return []\<close>\<close>

definition def_return_empty_list :: node where
  "def_return_empty_list =
     Node (located 1 1) (FunctionDef ''f'')
       [Single (Node (unlocated 2) Arguments
                  [Items [], Items [], Missing, Items [], OptItems [], Missing, Items []]),
        Items [Node (located 3 2) Return [Single (Node (located 4 2) List_expr [Items []])]],
        Items [], Missing]"

text \<open>The module \<open>x = []\<close> and its assignment.\<close>

definition assign_empty_list :: node where
  "assign_empty_list =
     Node (located 1 1) Assign
       [Items [name_at 2 1 ''x''], Single (Node (located 3 1) List_expr [Items []])]"

definition module_assign_empty_list :: node where
  "module_assign_empty_list = Node (unlocated 0) Module [Items [assign_empty_list]]"

definition ann_assign_empty_list :: node where
  "ann_assign_empty_list =
     Node (unlocated 4) AnnAssign
       [Single (name_at 2 1 ''x''), Single (name_at 5 1 ''list''),
        Single (Node (located 3 1) List_expr [Items []])]"

definition fresh_inferrer :: "bool \<Rightarrow> TypeInferrer" where
  "fresh_inferrer s = \<lparr>strict = s, type_cache = Map.empty\<rparr>"

text \<open>\<open>def f(): x = 1; return x\<close> and \<open>def g(): x = 's'; return x\<close>, from two files.\<close>

definition no_params :: "nat \<Rightarrow> node" where
  "no_params i =
     Node (unlocated i) Arguments [Items [], Items [], Missing, Items [], OptItems [], Missing, Items []]"

definition def_assign_return :: "string \<Rightarrow> pyconst \<Rightarrow> node" where
  "def_assign_return fname v =
     Node (located 1 1) (FunctionDef fname)
       [Single (no_params 2),
        Items [Node (located 3 2) Assign
                 [Items [name_at 4 2 ''x''], Single (Node (located 5 2) (Constant v) [])],
               Node (located 6 3) Return [Single (name_at 7 3 ''x'')]],
        Items [], Missing]"

definition cached_x_int :: TypeInferrer where
  "cached_x_int = \<lparr>strict = False, type_cache = [''x'' \<mapsto> ''int'']\<rparr>"

text \<open>\<open>def f(p): p.foo(); p.<method>(1)\<close>\<close>

definition method_call_stmt :: "nat \<Rightarrow> nat \<Rightarrow> string \<Rightarrow> string \<Rightarrow> node list \<Rightarrow> node" where
  "method_call_stmt i l receiver method args =
     Node (located i l) Expr
       [Single (Node (located (i + 1) l) Call
          [Single (Node (located (i + 2) l) (Attribute method) [Single (name_at (i + 3) l receiver)]),
           Items args, Items []])]"


text \<open>\<open>def f(x: List[int]) -> Optional[int]: return x\<close>, a module with no import.\<close>

definition subscript_at :: "nat \<Rightarrow> nat \<Rightarrow> string \<Rightarrow> string \<Rightarrow> node" where
  "subscript_at i l v sl =
     Node (located i l) Subscript [Single (name_at (i + 1) l v), Single (name_at (i + 2) l sl)]"









text \<open>
  Scenario D: \<open>items = []\<close> followed by \<open>items.append(User())\<close>; and the same with the
  initializer \<open>[x]\<close>, with and without the call.
\<close>

definition assign_items :: "node list \<Rightarrow> node" where
  "assign_items elts =
     Node (located 1 1) Assign
       [Items [name_at 2 1 ''items''], Single (Node (located 3 1) List_expr [Items elts])]"

definition append_User_stmt :: node where
  "append_User_stmt =
     method_call_stmt 4 2 ''items'' ''append''
       [Node (located 8 2) Call [Single (name_at 9 2 ''User''), Items [], Items []]]"

definition module_items :: "node list \<Rightarrow> node list \<Rightarrow> node" where
  "module_items elts stmts = Node (unlocated 0) Module [Items (assign_items elts # stmts)]"

definition diag_items :: diagnostic where
  "diag_items = \<lparr>category = ''collection_type'', line = 1, message = [],
                  context_name = Some ''items''\<rparr>"

text \<open>The assignment \<open>items = {...}\<close> of a set display, and the call \<open>User()\<close>.\<close>

definition assign_items_set :: "node list \<Rightarrow> node" where
  "assign_items_set elts =
     Node (located 1 1) Assign
       [Items [name_at 2 1 ''items''], Single (Node (located 3 1) Set_expr [Items elts])]"

definition User_call :: node where
  "User_call = Node (located 4 1) Call [Single (name_at 5 1 ''User''), Items [], Items []]"

text \<open>What \<open>ast.parse\<close> returns for the one type string of the scenario.\<close>

definition parse_List_User :: "string \<Rightarrow> node option" where
  "parse_List_User type_str =
     (if type_str = ''List[User]'' then Some (subscript_at 20 1 ''List'' ''User'') else None)"

text \<open>
  \<open>if user is not None:\<close> with \<open>y = foo(\<close> / \<open>user.email)\<close> in its body or in its else
  branch.
\<close>

definition user_email :: node where
  "user_email = Node (located 10 5) (Attribute ''email'') [Single (name_at 11 5 ''user'')]"

definition assign_foo_user_email :: node where
  "assign_foo_user_email =
     Node (located 6 4) Assign
       [Items [name_at 7 4 ''y''],
        Single (Node (located 8 4) Call
                  [Single (name_at 9 4 ''foo''), Items [user_email], Items []])]"

definition pass_stmt :: node where
  "pass_stmt = Node (located 5 2) (Other ''Pass'' True) []"

definition user_none_test :: "string \<Rightarrow> node" where
  "user_none_test op =
     Node (located 2 1) (Compare [op])
       [Single (name_at 3 1 ''user''), Items [Node (located 4 1) (Constant CNone) []]]"

definition if_user_none :: "string \<Rightarrow> node list \<Rightarrow> node list \<Rightarrow> node" where
  "if_user_none op body orelse =
     Node (located 1 1) If_stmt [Single (user_none_test op), Items body, Items orelse]"

definition module_of :: "node list \<Rightarrow> node" where
  "module_of stmts = Node (unlocated 0) Module [Items stmts]"

definition diag_line_5 :: diagnostic where
  "diag_line_5 = \<lparr>category = ''optional_none'', line = 5, message = [], context_name = None\<rparr>"

section \<open>Properties\<close>

subsection \<open>The walk visits exactly the nodes of the tree\<close>

lemma walk_queue_append:
  "walk_queue (q @ r) = q @ walk_queue (r @ concat (map iter_child_nodes q))"
proof (induction q arbitrary: r)
  case Nil
  then show ?case by simp
next
  case (Cons n q)
  have "walk_queue ((n # q) @ r) = n # walk_queue (q @ (r @ iter_child_nodes n))"
    by simp
  also have "\<dots> = n # q @ walk_queue ((r @ iter_child_nodes n) @ concat (map iter_child_nodes q))"
    using Cons.IH [of "r @ iter_child_nodes n"] by simp
  finally show ?case by simp
qed

lemma queue_in_walk: "set q \<subseteq> set (walk_queue q)"
  using walk_queue_append [of q "[]"] by (metis append_Nil2 set_append sup_ge1 append_Nil)

lemma children_in_walk:
  "n \<in> set (walk_queue q) \<Longrightarrow> set (iter_child_nodes n) \<subseteq> set (walk_queue q)"
proof (induction q rule: walk_queue.induct)
  case 1
  then show ?case by simp
next
  case (2 m todo)
  show ?case
  proof (cases "n = m")
    case True
    have "set (iter_child_nodes m) \<subseteq> set (todo @ iter_child_nodes m)" by simp
    also have "\<dots> \<subseteq> set (walk_queue (todo @ iter_child_nodes m))" by (rule queue_in_walk)
    finally show ?thesis using True by auto
  next
    case False
    with "2.prems" have "n \<in> set (walk_queue (todo @ iter_child_nodes m))" by simp
    then have "set (iter_child_nodes n) \<subseteq> set (walk_queue (todo @ iter_child_nodes m))"
      by (rule "2.IH")
    then show ?thesis by auto
  qed
qed

lemma nodes_of_trans: "c \<in> nodes_of n \<Longrightarrow> n \<in> nodes_of t \<Longrightarrow> c \<in> nodes_of t"
  by (induction rule: nodes_of.induct) (auto intro: nodes_of.intros)

lemma walk_queue_sound: "set (walk_queue q) \<subseteq> (\<Union>t\<in>set q. nodes_of t)"
proof (induction q rule: walk_queue.induct)
  case 1
  then show ?case by simp
next
  case (2 n todo)
  have "(\<Union>t\<in>set (todo @ iter_child_nodes n). nodes_of t) \<subseteq> (\<Union>t\<in>set (n # todo). nodes_of t)"
  proof
    fix x assume "x \<in> (\<Union>t\<in>set (todo @ iter_child_nodes n). nodes_of t)"
    then obtain t where t: "t \<in> set todo \<or> t \<in> set (iter_child_nodes n)" and x: "x \<in> nodes_of t"
      by auto
    from t show "x \<in> (\<Union>t\<in>set (n # todo). nodes_of t)"
    proof
      assume "t \<in> set todo" with x show ?thesis by auto
    next
      assume "t \<in> set (iter_child_nodes n)"
      then have "t \<in> nodes_of n" by (auto intro: nodes_of.intros)
      with x have "x \<in> nodes_of n" by (rule nodes_of_trans)
      then show ?thesis by auto
    qed
  qed
  with "2.IH" have "set (walk_queue (todo @ iter_child_nodes n)) \<subseteq> (\<Union>t\<in>set (n # todo). nodes_of t)"
    by blast
  moreover have "n \<in> (\<Union>t\<in>set (n # todo). nodes_of t)" by (auto intro: nodes_of.root)
  ultimately show ?case by auto
qed

lemma set_walk: "set (walk t) = nodes_of t"
proof
  show "set (walk t) \<subseteq> nodes_of t"
    using walk_queue_sound [of "[t]"] by (simp add: walk_def)
  show "nodes_of t \<subseteq> set (walk t)"
  proof
    fix x assume "x \<in> nodes_of t"
    then show "x \<in> set (walk t)"
    proof (induction rule: nodes_of.induct)
      case root
      show ?case using queue_in_walk [of "[t]"] by (simp add: walk_def)
    next
      case (child n c)
      then show ?case using children_in_walk [of n "[t]"] by (auto simp: walk_def)
    qed
  qed
qed

lemma set_map_filter: "set (List.map_filter f xs) = {y. \<exists>x \<in> set xs. f x = Some y}"
  by (induction xs) (auto simp: List.map_filter_simps split: option.splits)

subsection \<open>Properties of unification\<close>

lemma filter_Any: "Set.filter (\<lambda>t. t \<noteq> a) S = S - {a}"
  by (rule set_eqI) simp

lemma single_minus: "x \<noteq> a \<Longrightarrow> {x} - {a} = {x}"
  by auto

lemma unify_types_alt:
  "unify_types S =
     (let R = S - {''Any''} in
        if R = {} then ''Any''
        else if card R = 1 then the_elem R
        else if R \<subseteq> {''int'', ''float''} then (if ''float'' \<in> R then ''float'' else ''int'')
        else ''Union['' @ join '', '' (sorted_list_of_set R) @ '']'')"
  unfolding unify_types_def filter_Any Let_def
  by (cases "S = {}") simp_all

lemma unify_empty: "S - {''Any''} = {} \<Longrightarrow> unify_types S = ''Any''"
  by (simp only: unify_types_alt Let_def) simp

lemma unify_single: "S - {''Any''} = {t} \<Longrightarrow> unify_types S = t"
  by (simp only: unify_types_alt Let_def) simp

lemma unify_numeric:
  assumes ne: "S - {''Any''} \<noteq> {}" and sub: "S - {''Any''} \<subseteq> {''int'', ''float''}"
  shows "unify_types S = (if ''float'' \<in> S then ''float'' else ''int'')"
proof -
  define R where "R = S - {''Any''}"
  have fl: "''float'' \<in> S \<longleftrightarrow> ''float'' \<in> R"
    unfolding R_def by simp
  show ?thesis
  proof (cases "card R = 1")
    case True
    then obtain t where t: "R = {t}"
      by (auto simp: card_1_singleton_iff)
    have u: "unify_types S = t"
      using t unify_single R_def by simp
    have "t \<in> {''int'', ''float''}"
      using sub t R_def by blast
    then have "t = ''int'' \<or> t = ''float''" by blast
    then show ?thesis
    proof
      assume "t = ''int''"
      then show ?thesis using u fl t by simp
    next
      assume "t = ''float''"
      then show ?thesis using u fl t by simp
    qed
  next
    case False
    have "unify_types S = (if ''float'' \<in> R then ''float'' else ''int'')"
      using False ne sub unfolding R_def
      by (simp only: unify_types_alt Let_def if_True if_False)
    then show ?thesis using fl by simp
  qed
qed

lemma unify_union:
  assumes "\<nexists>t. S - {''Any''} = {t}" and "S - {''Any''} \<noteq> {}"
    and "\<not> S - {''Any''} \<subseteq> {''int'', ''float''}"
  shows "unify_types S = ''Union['' @ join '', '' (sorted_list_of_set (S - {''Any''})) @ '']''"
proof -
  have "card (S - {''Any''}) \<noteq> 1"
    using assms(1) by (auto simp: card_1_singleton_iff)
  then show ?thesis
    using assms(2,3) by (simp only: unify_types_alt Let_def if_True if_False)
qed


text \<open>
  Claim C2. For every finite set \<open>S\<close> of type strings, unification first drops the member
  \<open>''Any''\<close>. An empty remainder gives \<open>''Any''\<close>; a single remaining member is returned
  unchanged; a nonempty remainder inside \<open>{''int'', ''float''}\<close> gives \<open>''float''\<close> when
  \<open>''float''\<close> is present and \<open>''int''\<close> otherwise; every other remainder gives
  \<open>''Union[...]''\<close> over the remaining members, joined by \<open>'', ''\<close> in sorted order without
  repetition. The four example values of the specification are included.
\<close>

theorem unify_types_spec:
  assumes "finite S"
  shows "(S - {''Any''} = {} \<longrightarrow> unify_types S = ''Any'')
       \<and> (\<forall>t. S - {''Any''} = {t} \<longrightarrow> unify_types S = t)
       \<and> (S - {''Any''} \<noteq> {} \<and> S - {''Any''} \<subseteq> {''int'', ''float''} \<longrightarrow>
            unify_types S = (if ''float'' \<in> S then ''float'' else ''int''))
       \<and> ((\<nexists>t. S - {''Any''} = {t}) \<and> S - {''Any''} \<noteq> {}
            \<and> \<not> S - {''Any''} \<subseteq> {''int'', ''float''} \<longrightarrow>
            unify_types S = ''Union['' @ join '', '' (sorted_list_of_set (S - {''Any''})) @ '']'')
       \<and> (let L = sorted_list_of_set (S - {''Any''})
            in set L = S - {''Any''} \<and> sorted L \<and> distinct L)
       \<and> unify_types {''int'', ''float''} = ''float''
       \<and> unify_types {''str''} = ''str''
       \<and> unify_types {''Any''} = ''Any''
       \<and> unify_types {} = ''Any''"
proof (intro conjI impI allI)
  show "unify_types {''int'', ''float''} = ''float''" by code_simp
  show "unify_types {''str''} = ''str''" by code_simp
  show "unify_types {''Any''} = ''Any''" by code_simp
  show "unify_types {} = ''Any''" by code_simp
  show "let L = sorted_list_of_set (S - {''Any''})
            in set L = S - {''Any''} \<and> sorted L \<and> distinct L"
    using assms by (simp add: Let_def)
  show "unify_types S = ''Any''" if "S - {''Any''} = {}"
    using that by (rule unify_empty)
  show "unify_types S = t" if "S - {''Any''} = {t}" for t
    using that by (rule unify_single)
  show "unify_types S = (if ''float'' \<in> S then ''float'' else ''int'')"
    if "S - {''Any''} \<noteq> {} \<and> S - {''Any''} \<subseteq> {''int'', ''float''}"
    using that unify_numeric by blast
  show "unify_types S = ''Union['' @ join '', '' (sorted_list_of_set (S - {''Any''})) @ '']''"
    if "(\<nexists>t. S - {''Any''} = {t}) \<and> S - {''Any''} \<noteq> {}
            \<and> \<not> S - {''Any''} \<subseteq> {''int'', ''float''}"
    using that unify_union by blast
qed

theorem unify_types_spec_witness:
  "finite {''str'', ''int'', ''Any''}
   \<and> unify_types {''str'', ''int'', ''Any''}
       = ''Union['' @ join '', '' (sorted_list_of_set ({''str'', ''int'', ''Any''} - {''Any''})) @ '']''
   \<and> unify_types {''str'', ''int'', ''Any''} = ''Union[int, str]''"
proof -
  have fin: "finite {''str'', ''int'', ''Any''}" by simp
  have r: "{''str'', ''int'', ''Any''} - {''Any''} = {''str'', ''int''}" by code_simp
  have one: "\<nexists>t. {''str'', ''int''} = {t::string}"
    by (simp add: doubleton_eq_iff)
  have ns: "\<not> {''str'', ''int''} \<subseteq> {''int'', ''float''}" by simp
  have ne: "{''str'', ''int''} \<noteq> ({}::string set)" by simp
  have "unify_types {''str'', ''int'', ''Any''}
       = ''Union['' @ join '', '' (sorted_list_of_set ({''str'', ''int'', ''Any''} - {''Any''})) @ '']''"
    using unify_types_spec [OF fin] one ns ne unfolding r by blast
  moreover have "unify_types {''str'', ''int'', ''Any''} = ''Union[int, str]''" by code_simp
  ultimately show ?thesis using fin by blast
qed

text \<open>
  Claim C3. Unification is idempotent: unifying the singleton set of an output gives that
  output again.
\<close>

theorem unify_types_idempotent: "unify_types {unify_types S} = unify_types S"
proof (cases "unify_types S = ''Any''")
  case True
  then show ?thesis by (simp add: unify_empty)
next
  case False
  then have "{unify_types S} - {''Any''} = {unify_types S}" by (rule single_minus)
  then show ?thesis by (rule unify_single)
qed

theorem unify_types_idempotent_witness:
  "unify_types {unify_types {''str'', ''int'', ''Any''}} = ''Union[int, str]''"
proof -
  have "unify_types {''str'', ''int'', ''Any''} = ''Union[int, str]''" by code_simp
  then show ?thesis
    using unify_types_idempotent [of "{''str'', ''int'', ''Any''}"] by simp
qed

subsection \<open>Return-type inference\<close>

text \<open>
  Claim C4. \<open>infer_return_type\<close> is to give \<open>''None''\<close> only for a function without return
  statements or with bare returns only, and otherwise the unification of the types of
  the returned expressions. For \<open>def f(x): return x\<close> the only return statement carries a
  value whose type the inferrer cannot find (\<open>x\<close> is never assigned), the set of collected
  types stays empty, and the result is \<open>''None''\<close>, not the unification \<open>''Any''\<close>.
\<close>

theorem infer_return_type_returned_parameter:
  "List.map_filter as_Return (walk def_return_param) = [Some (name_at 5 2 ''x'')]
   \<and> map_sum id fst (infer_expr_type unparse 4 (fresh_inferrer False) (name_at 5 2 ''x'') def_return_param)
       = Inr None
   \<and> map_sum id fst (infer_return_type unparse 5 (fresh_inferrer False) def_return_param)
       = Inr (Some ''None'')"
  by code_simp

subsection \<open>Strict mode\<close>

text \<open>
  Claim C6. In strict mode no annotation is to contain \<open>Any\<close>. With \<open>strict = True\<close> the
  three inference entry points still return \<open>''List[Any]''\<close>: for a parameter used as
  \<open>p.append(1)\<close>, for \<open>return []\<close> and for \<open>x = []\<close>.
\<close>

theorem strict_mode_yields_Any:
  "map_sum id fst (infer_param_type unparse 5 (fresh_inferrer True) ''p'' def_append)
     = Inr (Some ''List[Any]'')
   \<and> map_sum id fst (infer_return_type unparse 5 (fresh_inferrer True) def_return_empty_list)
     = Inr (Some ''List[Any]'')
   \<and> map_sum id fst (infer_variable_type unparse 5 (fresh_inferrer True) ''x'' assign_empty_list
                        module_assign_empty_list)
     = Inr (Some ''List[Any]'')"
  by code_simp

subsection \<open>Node replacement\<close>

text \<open>
  Claim C7. The replacement primitive is to copy the location of the old node onto the new
  one. Replacing the located assignment \<open>x = []\<close> by an annotated assignment built without
  location leaves the new node without \<open>lineno\<close> in the copies of \<open>MissingHintsFixer\<close> and
  \<open>GenericFixer\<close>; the copy of \<open>OptionalFixer\<close> gives it line 1.
\<close>

theorem replace_node_location_not_copied:
  "lineno (meta_of assign_empty_list) = Some 1
   \<and> MissingHintsFixer_replace_node module_assign_empty_list assign_empty_list ann_assign_empty_list
       = Node (unlocated 0) Module [Items [ann_assign_empty_list]]
   \<and> GenericFixer_replace_node module_assign_empty_list assign_empty_list ann_assign_empty_list
       = Node (unlocated 0) Module [Items [ann_assign_empty_list]]
   \<and> lineno (meta_of ann_assign_empty_list) = None
   \<and> OptionalFixer_replace_node module_assign_empty_list assign_empty_list ann_assign_empty_list
       = Node (unlocated 0) Module
           [Items [Node (located 4 1) AnnAssign (fields_of ann_assign_empty_list)]]"
  by code_simp

subsection \<open>The type cache\<close>

lemma mapM_state_preserves:
  assumes step: "\<And>s x y s'. I s \<Longrightarrow> f s x = Inr (y, s') \<Longrightarrow> I s'"
  shows "I s \<Longrightarrow> mapM_state f s xs = Inr (ys, s') \<Longrightarrow> I s'"
proof (induction xs arbitrary: s ys)
  case Nil
  then show ?case by simp
next
  case (Cons x xs)
  from Cons.prems(2) obtain y s1 where fx: "f s x = Inr (y, s1)"
    by (auto split: sum.splits)
  with Cons.prems(2) obtain ys' where rest: "mapM_state f s1 xs = Inr (ys', s')"
    by (auto split: sum.splits)
  from step [OF Cons.prems(1) fx] have "I s1" .
  then show ?case using rest by (rule Cons.IH)
qed

lemma infer_keeps:
  "(keeps b K s \<longrightarrow> infer_expr_type un d s e ctx = Inr (r, s') \<longrightarrow> keeps b K s')
   \<and> (keeps b K s \<longrightarrow> lookup_variable_type un d s v ctx = Inr (r, s') \<longrightarrow> keeps b K s')"
proof (induction d arbitrary: s e v r s')
  case 0
  show ?case by simp
next
  case (Suc d)
  have ih1: "\<And>s e r s'. keeps b K s \<Longrightarrow> infer_expr_type un d s e ctx = Inr (r, s') \<Longrightarrow> keeps b K s'"
    using Suc by blast
  have ih2: "\<And>s v r s'. keeps b K s \<Longrightarrow> lookup_variable_type un d s v ctx = Inr (r, s') \<Longrightarrow> keeps b K s'"
    using Suc by blast
  have ihm: "\<And>s es ts s'. keeps b K s \<Longrightarrow>
       mapM_state (\<lambda>s e. infer_expr_type un d s e ctx) s es = Inr (ts, s') \<Longrightarrow> keeps b K s'"
    by (rule mapM_state_preserves [where I = "keeps b K"]) (auto intro: ih1)
  have a: "keeps b K s'" if "keeps b K s" "infer_expr_type un (Suc d) s e ctx = Inr (r, s')"
    using that
    by (auto simp: Let_def split: option.splits sum.splits prod.splits if_splits
             dest: ih1 ih2 ihm)
  have b: "keeps b K s'" if ks: "keeps b K s"
    and lk: "lookup_variable_type un (Suc d) s v ctx = Inr (r, s')"
  proof (cases "type_cache s v")
    case (Some u)
    with lk show ?thesis using ks by simp
  next
    case None
    with ks have kv: "v \<notin> dom K" by (auto simp: keeps_def map_le_def dom_def)
    show ?thesis
    proof (cases "find_assignments v ctx")
      case Nil
      with lk None show ?thesis using ks by simp
    next
      case (Cons a as)
      show ?thesis
      proof (cases "as_Assign a")
        case no: None
        with lk None Cons show ?thesis using ks by simp
      next
        case (Some p)
        obtain targets val where p: "p = (targets, val)" by (cases p)
        from lk None Cons Some p obtain vt s1 where
          inf: "infer_expr_type un d s val ctx = Inr (vt, s1)"
          and res: "s' = (if truthy vt then s1\<lparr>type_cache := (type_cache s1)(v \<mapsto> the vt)\<rparr> else s1)"
          by (auto split: sum.splits if_splits)
        from ih1 [OF ks inf] have "keeps b K s1" .
        with res kv show ?thesis by (auto simp: keeps_def map_le_def)
      qed
    qed
  qed
  from a b show ?case by blast
qed


lemma infer_expr_type_keeps:
  "keeps b K s \<Longrightarrow> infer_expr_type un d s e ctx = Inr (r, s') \<Longrightarrow> keeps b K s'"
  using infer_keeps by blast

lemma collect_returns_keeps:
  "keeps b K s \<Longrightarrow> collect_returns un d func nodes (ts, h, s) = Inr (ts', h', s') \<Longrightarrow> keeps b K s'"
proof (induction nodes arbitrary: ts h s)
  case Nil
  then show ?case by simp
next
  case (Cons n nodes)
  show ?case
  proof (cases "as_Return n")
    case None
    with Cons show ?thesis by simp
  next
    case (Some v)
    show ?thesis
    proof (cases v)
      case None
      with Some Cons show ?thesis by simp
    next
      case (Some e)
      with \<open>as_Return n = Some v\<close> Cons.prems(2) obtain rt s1 where
        inf: "infer_expr_type un d s e func = Inr (rt, s1)"
        and rest: "collect_returns un d func nodes
                     (if truthy rt then insert (the rt) ts else ts, h, s1) = Inr (ts', h', s')"
        by (auto split: sum.splits)
      from infer_expr_type_keeps [OF Cons.prems(1) inf] have "keeps b K s1" .
      then show ?thesis using rest by (rule Cons.IH)
    qed
  qed
qed

lemma infer_return_type_keeps:
  "keeps b K s \<Longrightarrow> infer_return_type un d s func = Inr (r, s') \<Longrightarrow> keeps b K s'"
  unfolding infer_return_type_def
  by (auto simp: Let_def split: sum.splits prod.splits if_splits dest: collect_returns_keeps)

lemma analyze_param_usage_loop_keeps:
  "keeps b K s \<Longrightarrow> analyze_param_usage_loop un d p func nodes (ps, s) = Inr (ps', s')
     \<Longrightarrow> keeps b K s'"
proof (induction nodes arbitrary: ps s)
  case Nil
  then show ?case by simp
next
  case (Cons n nodes)
  from Cons.prems(2) show ?case
    by (auto split: option.splits sum.splits prod.splits if_splits
             dest: infer_expr_type_keeps [OF Cons.prems(1)] Cons.IH [OF Cons.prems(1)]
             intro: Cons.IH)
qed

lemma infer_param_type_keeps:
  "keeps b K s \<Longrightarrow> infer_param_type un d s p func = Inr (r, s') \<Longrightarrow> keeps b K s'"
  unfolding infer_param_type_def analyze_param_usage_def
  by (auto split: sum.splits prod.splits if_splits dest: analyze_param_usage_loop_keeps)

lemma collect_assigned_types_keeps:
  "keeps b K s \<Longrightarrow> collect_assigned_types un d tree as (ts, s) = Inr (ts', s') \<Longrightarrow> keeps b K s'"
proof (induction as arbitrary: ts s)
  case Nil
  then show ?case by simp
next
  case (Cons a as)
  from Cons.prems(2) show ?case
    by (auto split: option.splits sum.splits prod.splits if_splits
             dest: infer_expr_type_keeps [OF Cons.prems(1)] Cons.IH [OF Cons.prems(1)]
             intro: Cons.IH)
qed

lemma infer_variable_type_rest_keeps:
  "keeps b K s \<Longrightarrow> infer_variable_type_rest un d s v tree = Inr (r, s') \<Longrightarrow> keeps b K s'"
  unfolding infer_variable_type_rest_def
  by (auto split: sum.splits prod.splits if_splits dest: collect_assigned_types_keeps)

lemma infer_variable_type_keeps:
  "keeps b K s \<Longrightarrow> infer_variable_type un d s v c tree = Inr (r, s') \<Longrightarrow> keeps b K s'"
  unfolding infer_variable_type_def
  by (auto split: option.splits sum.splits prod.splits if_splits
           dest: infer_variable_type_rest_keeps infer_expr_type_keeps)

lemma serve_keeps:
  "keeps b K s \<Longrightarrow> serve un d s req = Inr (r, s') \<Longrightarrow> keeps b K s'"
  by (cases req)
     (auto dest: infer_return_type_keeps infer_param_type_keeps infer_variable_type_keeps)

lemma serve_batch_keeps:
  "keeps b K s \<Longrightarrow> serve_batch un d s reqs = Inr (rs, s') \<Longrightarrow> keeps b K s'"
  unfolding serve_batch_def
  by (rule mapM_state_preserves [where I = "keeps b K"]) (auto dest: serve_keeps)

text \<open>
  Claim C10. The cache of variable types is keyed by the bare name and is never
  invalidated. A name that is in the cache is answered from the cache whatever context
  tree is passed. Every request the inferrer serves leaves all cache entries in place
  (and the strictness unchanged), so after any batch of requests, on the trees of any
  files, the name is still answered with the type cached first.
\<close>

theorem type_cache_keyed_by_name_never_invalidated:
  assumes "type_cache self n = Some t"
  shows "lookup_variable_type unparse (Suc depth) self n context = Inr (Some t, self)
       \<and> (\<forall>requests results self'.
             serve_batch unparse depth' self requests = Inr (results, self') \<longrightarrow>
               strict self' = strict self
               \<and> type_cache self \<subseteq>\<^sub>m type_cache self'
               \<and> (\<forall>context'. lookup_variable_type unparse (Suc depth) self' n context'
                                = Inr (Some t, self')))"
proof (intro conjI allI impI)
  show "lookup_variable_type unparse (Suc depth) self n context = Inr (Some t, self)"
    using assms by simp
next
  fix requests results self' context'
  assume run: "serve_batch unparse depth' self requests = Inr (results, self')"
  have "keeps (strict self) (type_cache self) self" by (simp add: keeps_def)
  from serve_batch_keeps [OF this run]
  have k: "strict self' = strict self" "type_cache self \<subseteq>\<^sub>m type_cache self'"
    by (simp_all add: keeps_def)
  show "strict self' = strict self" by (rule k)
  show "type_cache self \<subseteq>\<^sub>m type_cache self'" by (rule k)
  from k(2) assms have "type_cache self' n = Some t"
    by (auto simp: map_le_def dom_def)
  then show "lookup_variable_type unparse (Suc depth) self' n context' = Inr (Some t, self')"
    by simp
qed

theorem type_cache_keyed_by_name_never_invalidated_witness:
  "type_cache cached_x_int ''x'' = Some ''int''
   \<and> lookup_variable_type (\<lambda>n. []) (Suc 0) cached_x_int ''x'' (def_assign_return ''g'' (CStr ''s''))
       = Inr (Some ''int'', cached_x_int)
   \<and> map_sum id (\<lambda>(r, s). type_cache s ''x'')
        (infer_return_type (\<lambda>n. []) 5 (fresh_inferrer False) (def_assign_return ''f'' (CInt 1)))
       = Inr (Some ''int'')
   \<and> map_sum id fst
        (serve_batch (\<lambda>n. []) 5 (fresh_inferrer False)
           [ReturnType (def_assign_return ''f'' (CInt 1)),
            ReturnType (def_assign_return ''g'' (CStr ''s''))])
       = Inr [Some ''int'', Some ''int'']
   \<and> map_sum id fst
        (infer_return_type (\<lambda>n. []) 5 (fresh_inferrer False) (def_assign_return ''g'' (CStr ''s'')))
       = Inr (Some ''str'')"
proof -
  have c: "type_cache cached_x_int ''x'' = Some ''int''"
    by (simp add: cached_x_int_def)
  have l: "lookup_variable_type (\<lambda>n. []) (Suc 0) cached_x_int ''x''
             (def_assign_return ''g'' (CStr ''s'')) = Inr (Some ''int'', cached_x_int)"
    using type_cache_keyed_by_name_never_invalidated [OF c] by blast
  have e1: "map_sum id (\<lambda>(r, s). type_cache s ''x'')
        (infer_return_type (\<lambda>n. []) 5 (fresh_inferrer False) (def_assign_return ''f'' (CInt 1)))
       = Inr (Some ''int'')"
    by code_simp
  have e2: "map_sum id fst
        (serve_batch (\<lambda>n. []) 5 (fresh_inferrer False)
           [ReturnType (def_assign_return ''f'' (CInt 1)),
            ReturnType (def_assign_return ''g'' (CStr ''s''))])
       = Inr [Some ''int'', Some ''int'']"
    by code_simp
  have e3: "map_sum id fst
        (infer_return_type (\<lambda>n. []) 5 (fresh_inferrer False) (def_assign_return ''g'' (CStr ''s'')))
       = Inr (Some ''str'')"
    by code_simp
  from c l e1 e2 e3 show ?thesis by blast
qed

subsection \<open>Parameter types from usage\<close>










subsection \<open>Import reconciliation\<close>










































subsection \<open>Element types of collections\<close>

lemma expr_types_iff: "t \<in> expr_types nodes \<longleftrightarrow> (\<exists>a \<in> set nodes. get_expr_type a = Some t \<and> t \<noteq> [])"
  by (auto simp: expr_types_def set_map_filter)

lemma finite_expr_types: "finite (expr_types nodes)"
  by (simp add: expr_types_def)

lemma card_expr_types: "card (expr_types nodes) = 0 \<longleftrightarrow> expr_types nodes = {}"
  by (simp add: finite_expr_types)

lemma expr_types_Nil: "expr_types [] = {}"
  by (simp add: expr_types_def List.map_filter_simps)

lemma expr_types_walk:
  "expr_types (List.map_filter (appended_arg var_name) (walk tree)) = appended_types tree var_name"
proof (rule set_eqI)
  fix t
  have "set (List.map_filter (appended_arg var_name) (walk tree))
          = {a. \<exists>n \<in> nodes_of tree. appended_arg var_name n = Some a}"
    by (simp add: set_map_filter set_walk)
  then show "t \<in> expr_types (List.map_filter (appended_arg var_name) (walk tree))
               \<longleftrightarrow> t \<in> appended_types tree var_name"
    unfolding expr_types_iff appended_types_def by blast
qed

lemma one_or_union_nonempty:
  assumes "types \<noteq> {}" and "[] \<notin> types"
  shows "one_or_union types \<noteq> []"
proof (cases "card types = 1")
  case True
  then obtain t where "types = {t}" by (auto simp: card_1_singleton_iff)
  with assms show ?thesis by (simp add: one_or_union_def)
next
  case False
  then show ?thesis by (simp add: one_or_union_def)
qed

lemma empty_notin_expr_types: "[] \<notin> expr_types nodes"
  by (simp add: expr_types_iff)

lemma infer_from_literal_elts:
  assumes "as_List v = Some elts \<or> as_Set v = Some elts"
  shows "infer_from_literal v
           = (if expr_types elts = {} then None else Some (one_or_union (expr_types elts)))"
proof -
  have sel: "(case as_List v of Some elts \<Rightarrow> Some elts | None \<Rightarrow> as_Set v) = Some elts"
    using assms by (auto simp: as_List_def as_Set_def split: option.splits node.splits kind.splits)
  show ?thesis
  proof (cases "elts = []")
    case True
    with sel show ?thesis by (simp add: infer_from_literal_def expr_types_Nil)
  next
    case False
    have "card (expr_types elts) > 1" if "expr_types elts \<noteq> {}" "card (expr_types elts) \<noteq> 1"
      using that card_expr_types [of elts] by linarith
    with sel False show ?thesis
      by (auto simp: infer_from_literal_def one_or_union_def Let_def)
  qed
qed

lemma infer_from_usage_appended:
  "infer_from_usage tree var_name
     = (if appended_types tree var_name = {} then None
        else Some (''List['' @ one_or_union (appended_types tree var_name) @ '']''))"
proof -
  define A where "A = expr_types (List.map_filter (appended_arg var_name) (walk tree))"
  have fin: "card A = 0 \<longleftrightarrow> A = {}" unfolding A_def by (rule card_expr_types)
  have "infer_from_usage tree var_name
          = (if A = {} then None else Some (''List['' @ one_or_union A @ '']''))"
  proof (cases "card A = 1")
    case True
    then have "A \<noteq> {}" by auto
    with True show ?thesis
      unfolding infer_from_usage_def A_def [symmetric] by (simp add: one_or_union_def Let_def)
  next
    case False
    show ?thesis
    proof (cases "A = {}")
      case True
      then show ?thesis
        unfolding infer_from_usage_def A_def [symmetric] by (simp add: Let_def)
    next
      case ne: False
      with False fin have "card A > 1" by linarith
      with False ne show ?thesis
        unfolding infer_from_usage_def A_def [symmetric] by (simp add: one_or_union_def Let_def)
    qed
  qed
  then show ?thesis unfolding A_def expr_types_walk .
qed


lemma as_Set_not_others: "as_Set v = Some elts \<Longrightarrow> as_List v = None \<and> as_Dict v = None"
  by (auto simp: as_Set_def as_List_def as_Dict_def
           split: node.splits kind.splits list.splits slot.splits)

lemma infer_collection_type_literal:
  assumes a: "as_Assign node = Some (targets, v)"
    and l: "as_List v = Some elts
            \<or> (as_Set v = Some elts
                \<and> (expr_types elts \<noteq> {} \<or> appended_types tree var_name = {}))"
  shows "infer_collection_type node tree var_name
           = Some (expected_collection_type v elts tree var_name)"
proof -
  from l have l': "as_List v = Some elts \<or> as_Set v = Some elts" by blast
  have lit: "as_List v \<noteq> None \<or> as_Set v \<noteq> None" using l by auto
  note fl = infer_from_literal_elts [OF l']
  show ?thesis
  proof (cases "expr_types elts = {}")
    case False
    then have ne: "one_or_union (expr_types elts) \<noteq> []"
      by (rule one_or_union_nonempty) (rule empty_notin_expr_types)
    from a lit fl False ne show ?thesis
      by (simp add: infer_collection_type_def expected_collection_type_def element_type_def
                    container_name_def Let_def)
  next
    case True
    have dflt: "(if as_List v \<noteq> None then Some ''List[Any]''
                 else if as_Dict v \<noteq> None then Some ''Dict[str, Any]''
                 else if as_Set v \<noteq> None then Some ''Set[Any]'' else None)
               = Some (container_name v @ ''[Any]'')"
      using l' as_Set_not_others [of v elts] by (auto simp: container_name_def)
    from a lit fl True have i:
      "infer_collection_type node tree var_name =
         (case infer_from_usage tree var_name of
            Some usage_type \<Rightarrow> Some usage_type
          | None \<Rightarrow>
              if as_List v \<noteq> None then Some ''List[Any]''
              else if as_Dict v \<noteq> None then Some ''Dict[str, Any]''
              else if as_Set v \<noteq> None then Some ''Set[Any]'' else None)"
      by (simp add: infer_collection_type_def Let_def)
    show ?thesis
    proof (cases "appended_types tree var_name = {}")
      case e: True
      with True show ?thesis
        unfolding i dflt infer_from_usage_appended expected_collection_type_def element_type_def
        by simp
    next
      case ne: False
      with l True have "as_List v = Some elts" by blast
      then have "container_name v = ''List''" by (simp add: container_name_def)
      with True ne show ?thesis
        unfolding i infer_from_usage_appended expected_collection_type_def element_type_def
        by simp
    qed
  qed
qed

lemma expected_collection_type_nonempty: "expected_collection_type v elts tree var_name \<noteq> []"
  by (simp add: expected_collection_type_def container_name_def)

text \<open>
  Claim C9, as amended. For the assignment of a list or set display to one target, the
  name of the diagnostic, the element type comes from the display when at least one of
  its elements is a constant or a call of a bare name (one type, or a sorted \<open>Union\<close> of
  several); otherwise, also for a non-empty display, from the \<open>append\<close> and \<open>add\<close> calls
  on that name anywhere in the tree (the one appended type, or the sorted \<open>Union\<close> of
  several); otherwise it is \<open>Any\<close>. The annotation is the container of the display,
  \<open>List\<close> or \<open>Set\<close>, around that element type. The fixer replaces the assignment by an
  annotated assignment of the same target with that annotation and reports success. The
  statement covers every list display, and every set display whose element type comes
  from the display or is \<open>Any\<close>.
\<close>

theorem CollectionFixer_fix_literal_assignment:
  assumes name: "context_name error = Some var_name" "var_name \<noteq> []"
    and found: "find_assignment tree var_name (line error) = Some node"
    and a: "as_Assign node = Some ([target], v)"
    and l: "as_List v = Some elts
            \<or> (as_Set v = Some elts
                \<and> (expr_types elts \<noteq> {} \<or> appended_types tree var_name = {}))"
  shows "as_Name target = Some var_name
       \<and> infer_collection_type node tree var_name
           = Some (expected_collection_type v elts tree var_name)
       \<and> CollectionFixer_fix parse error tree
           = Inr (CollectionFixer_replace_node tree node
                    (Node (unlocated (fresh_id tree)) AnnAssign
                       [Single target,
                        Single (type_str_to_ast parse (Suc (fresh_id tree))
                                  (expected_collection_type v elts tree var_name)),
                        Single v]),
                  True)"
proof -
  note t = infer_collection_type_literal [OF a l]
  from found a have n: "as_Name target = Some var_name"
    by (auto simp: find_assignment_def find_Some_iff)
  have "CollectionFixer_fix parse error tree
          = Inr (CollectionFixer_replace_node tree node
                   (Node (unlocated (fresh_id tree)) AnnAssign
                      [Single target,
                       Single (type_str_to_ast parse (Suc (fresh_id tree))
                                 (expected_collection_type v elts tree var_name)),
                       Single v]),
                 True)"
    using name found t a expected_collection_type_nonempty [of v elts tree var_name]
    by (simp add: CollectionFixer_fix_def Let_def)
  with t n show ?thesis by blast
qed

theorem CollectionFixer_fix_literal_assignment_witness:
  "infer_collection_type (assign_items []) (module_items [] [append_User_stmt]) ''items''
     = Some ''List[User]''
   \<and> CollectionFixer_fix parse_List_User diag_items (module_items [] [append_User_stmt])
     = Inr (Node (unlocated 0) Module
              [Items [Node (located 10 1) AnnAssign
                        [Single (name_at 2 1 ''items''),
                         Single (subscript_at 20 1 ''List'' ''User''),
                         Single (Node (located 3 1) List_expr [Items []])],
                      append_User_stmt]],
            True)
   \<and> infer_collection_type (assign_items_set [User_call])
        (module_of [assign_items_set [User_call]]) ''items''
     = Some ''Set[User]''"
proof -
  let ?tree = "module_items [] [append_User_stmt]"
  let ?v = "Node (located 3 1) List_expr [Items []]"
  have name: "context_name diag_items = Some ''items''" "''items'' \<noteq> []"
    by (simp_all add: diag_items_def)
  have found: "find_assignment ?tree ''items'' (line diag_items) = Some (assign_items [])"
    by code_simp
  have a: "as_Assign (assign_items []) = Some ([name_at 2 1 ''items''], ?v)"
    by code_simp
  have l: "as_List ?v = Some []
           \<or> (as_Set ?v = Some []
               \<and> (expr_types [] \<noteq> {} \<or> appended_types ?tree ''items'' = {}))"
    by (simp add: as_List_def)
  have app: "appended_types ?tree ''items'' = {''User''}"
    unfolding expr_types_walk [symmetric] by code_simp
  have ex: "expected_collection_type ?v [] ?tree ''items'' = ''List[User]''"
    unfolding expected_collection_type_def element_type_def expr_types_Nil app one_or_union_def
    by (simp add: container_name_def as_List_def)
  have fresh: "fresh_id ?tree = 10"
    by code_simp
  have ann: "type_str_to_ast parse_List_User (Suc 10) ''List[User]'' = subscript_at 20 1 ''List'' ''User''"
    by (simp add: type_str_to_ast_def parse_List_User_def)
  have rep: "CollectionFixer_replace_node ?tree (assign_items [])
               (Node (unlocated 10) AnnAssign
                  [Single (name_at 2 1 ''items''), Single (subscript_at 20 1 ''List'' ''User''),
                   Single ?v])
             = Node (unlocated 0) Module
                 [Items [Node (located 10 1) AnnAssign
                           [Single (name_at 2 1 ''items''),
                            Single (subscript_at 20 1 ''List'' ''User''),
                            Single ?v],
                         append_User_stmt]]"
    by code_simp
  from CollectionFixer_fix_literal_assignment [OF name found a l, of parse_List_User]
  have list: "infer_collection_type (assign_items []) ?tree ''items'' = Some ''List[User]''
     \<and> CollectionFixer_fix parse_List_User diag_items ?tree
     = Inr (Node (unlocated 0) Module
              [Items [Node (located 10 1) AnnAssign
                        [Single (name_at 2 1 ''items''),
                         Single (subscript_at 20 1 ''List'' ''User''),
                         Single ?v],
                      append_User_stmt]],
            True)"
    unfolding ex fresh by (simp only: ann rep)
  let ?stree = "module_of [assign_items_set [User_call]]"
  let ?sv = "Node (located 3 1) Set_expr [Items [User_call]]"
  have sfound: "find_assignment ?stree ''items'' (line diag_items) = Some (assign_items_set [User_call])"
    by code_simp
  have sa: "as_Assign (assign_items_set [User_call]) = Some ([name_at 2 1 ''items''], ?sv)"
    by code_simp
  have et: "expr_types [User_call] = {''User''}"
    by code_simp
  have sl: "as_List ?sv = Some [User_call]
           \<or> (as_Set ?sv = Some [User_call]
               \<and> (expr_types [User_call] \<noteq> {} \<or> appended_types ?stree ''items'' = {}))"
    unfolding et by (simp add: as_Set_def)
  have sex: "expected_collection_type ?sv [User_call] ?stree ''items'' = ''Set[User]''"
    unfolding expected_collection_type_def element_type_def et one_or_union_def
    by (simp add: container_name_def as_List_def)
  from CollectionFixer_fix_literal_assignment [OF name sfound sa sl, of parse_List_User]
  have set: "infer_collection_type (assign_items_set [User_call]) ?stree ''items''
               = Some ''Set[User]''"
    unfolding sex by (rule conjunct1 [OF conjunct2])
  note list1 = list [THEN conjunct1] and list2 = list [THEN conjunct2]
  from list1 list2 set show ?thesis by (intro conjI)
qed

text \<open>
  The claim as stated fails: with the non-empty initializer \<open>[x]\<close> the element type is
  still taken from the \<open>append\<close> call, and without the call it is \<open>Any\<close>.
\<close>

theorem nonempty_literal_still_inferred_from_usage:
  "as_List (Node (located 3 1) List_expr [Items [name_at 10 1 ''x'']]) = Some [name_at 10 1 ''x'']
   \<and> infer_collection_type (assign_items [name_at 10 1 ''x''])
        (module_items [name_at 10 1 ''x''] [append_User_stmt]) ''items''
      = Some ''List[User]''
   \<and> infer_collection_type (assign_items [name_at 10 1 ''x''])
        (module_items [name_at 10 1 ''x''] []) ''items''
      = Some ''List[Any]''"
  by code_simp

subsection \<open>The walk, level by level\<close>

lemma walk_queue_levels:
  "walk_queue q = q @ concat (map iter_child_nodes (walk_queue q))"
proof (induction q rule: walk_queue.induct)
  case 1
  show ?case by simp
next
  case (2 n todo)
  let ?w = "walk_queue (todo @ iter_child_nodes n)"
  have "n # ?w = n # ((todo @ iter_child_nodes n) @ concat (map iter_child_nodes ?w))"
    by (rule arg_cong [OF "2.IH"])
  then show ?case by simp
qed

lemma walk_root_children:
  "walk tree = tree # concat (map iter_child_nodes (walk tree))"
  using walk_queue_levels [of "[tree]"] by (simp add: walk_def)

lemma concat_map_unique:
  "distinct (concat (map f ws)) \<Longrightarrow> x \<in> set ws \<Longrightarrow> y \<in> set ws
     \<Longrightarrow> a \<in> set (f x) \<Longrightarrow> a \<in> set (f y) \<Longrightarrow> x = y"
  by (induction ws) auto

lemma concat_map_distinct:
  "distinct (concat (map f ws)) \<Longrightarrow> x \<in> set ws \<Longrightarrow> distinct (f x)"
  by (induction ws) auto

lemma child_size: "c \<in> set (iter_child_nodes n) \<Longrightarrow> size c < size n"
proof -
  assume "c \<in> set (iter_child_nodes n)"
  then have "size c \<in> set (map size (iter_child_nodes n))" by simp
  then have "size c \<le> sum_list (map size (iter_child_nodes n))" by (simp add: member_le_sum_list)
  with size_children [of n] show ?thesis by simp
qed

lemma nodes_of_size: "z \<in> nodes_of y \<Longrightarrow> size z \<le> size y"
proof (induction rule: nodes_of.induct)
  case root
  show ?case by simp
next
  case (child n c)
  with child_size [of c n] show ?case by simp
qed

subsection \<open>Replacement, slot by slot\<close>

lemma replace_in_list_None_iff:
  "replace_in_list old new items = None \<longleftrightarrow> (\<forall>c \<in> set items. ident c \<noteq> old)"
  by (induction items) auto

lemma replace_in_opt_list_None_iff:
  "replace_in_opt_list old new items = None \<longleftrightarrow> (\<forall>c \<in> set (List.map_filter id items). ident c \<noteq> old)"
  by (induction items) (auto simp: List.map_filter_simps split: option.splits)

lemma replace_in_list_Some:
  "replace_in_list old new items = Some items' \<Longrightarrow>
     \<exists>pre x post. items = pre @ x # post \<and> ident x = old \<and> items' = pre @ new # post"
proof (induction items arbitrary: items')
  case Nil
  then show ?case by simp
next
  case (Cons a items)
  show ?case
  proof (cases "ident a = old")
    case True
    with Cons.prems have "items' = new # items" by simp
    with True show ?thesis by - (rule exI [of _ "[]"], rule exI [of _ a], rule exI [of _ items], simp)
  next
    case False
    with Cons.prems obtain rest where r: "replace_in_list old new items = Some rest"
      and i: "items' = a # rest" by auto
    from Cons.IH [OF r] obtain pre x post where
      "items = pre @ x # post" "ident x = old" "rest = pre @ new # post"
      by blast
    with i show ?thesis
      by - (rule exI [of _ "a # pre"], rule exI [of _ x], rule exI [of _ post], simp)
  qed
qed

lemma replace_in_opt_list_Some:
  "replace_in_opt_list old new items = Some items' \<Longrightarrow>
     \<exists>pre x post. List.map_filter id items = pre @ x # post \<and> ident x = old
                  \<and> List.map_filter id items' = pre @ new # post"
proof (induction items arbitrary: items')
  case Nil
  then show ?case by simp
next
  case (Cons a items)
  show ?case
  proof (cases "map_option ident a = Some old")
    case True
    then obtain x where a: "a = Some x" and x: "ident x = old" by auto
    from True Cons.prems have "items' = Some new # items" by simp
    with a x show ?thesis
      by - (rule exI [of _ "[]"], rule exI [of _ x], rule exI [of _ "List.map_filter id items"], simp add: List.map_filter_simps id_def)
  next
    case False
    from False have "replace_in_opt_list old new (a # items)
                       = map_option ((#) a) (replace_in_opt_list old new items)"
      by (simp only: replace_in_opt_list.simps if_False)
    with Cons.prems have "map_option ((#) a) (replace_in_opt_list old new items) = Some items'"
      by (simp only:)
    then obtain rest where r: "replace_in_opt_list old new items = Some rest"
      and i: "items' = a # rest" by auto
    from Cons.IH [OF r] obtain pre x post where
      p: "List.map_filter id items = pre @ x # post" "ident x = old"
         "List.map_filter id rest = pre @ new # post"
      by blast
    show ?thesis
    proof (cases a)
      case None
      with p i show ?thesis
        by - (rule exI [of _ pre], rule exI [of _ x], rule exI [of _ post], simp add: List.map_filter_simps id_def)
    next
      case (Some y)
      with p i show ?thesis
        by - (rule exI [of _ "y # pre"], rule exI [of _ x], rule exI [of _ post], simp add: List.map_filter_simps id_def)
    qed
  qed
qed

lemma replace_in_fields_None_iff:
  "replace_in_fields old new fs = None
     \<longleftrightarrow> (\<forall>c \<in> set (concat (map slot_nodes fs)). ident c \<noteq> old)"
proof (induction fs)
  case Nil
  show ?case by simp
next
  case (Cons f fs)
  show ?case
  proof (cases f)
    case (Single v)
    with Cons.IH show ?thesis by auto
  next
    case Missing
    with Cons.IH show ?thesis by auto
  next
    case (Items vs)
    show ?thesis
    proof (cases "replace_in_list old new vs")
      case None
      with Items Cons.IH replace_in_list_None_iff [of old new vs] show ?thesis by auto
    next
      case (Some vs')
      with replace_in_list_None_iff [of old new vs] have "\<exists>c \<in> set vs. ident c = old" by auto
      with Items Some show ?thesis by auto
    qed
  next
    case (OptItems vs)
    show ?thesis
    proof (cases "replace_in_opt_list old new vs")
      case None
      with OptItems Cons.IH replace_in_opt_list_None_iff [of old new vs] show ?thesis by auto
    next
      case (Some vs')
      with replace_in_opt_list_None_iff [of old new vs]
      have "\<exists>c \<in> set (List.map_filter id vs). ident c = old" by auto
      with OptItems Some show ?thesis by auto
    qed
  qed
qed

lemma replace_in_fields_Some:
  "replace_in_fields old new fs = Some fs' \<Longrightarrow>
     \<exists>pre x post. concat (map slot_nodes fs) = pre @ x # post \<and> ident x = old
                  \<and> concat (map slot_nodes fs') = pre @ new # post"
proof (induction fs arbitrary: fs')
  case Nil
  then show ?case by simp
next
  case (Cons f fs)
  have step: ?case
    if r: "replace_in_fields old new fs = Some rest" and f: "fs' = f # rest" for rest
  proof -
    from Cons.IH [OF r] obtain pre x post where
      "concat (map slot_nodes fs) = pre @ x # post" "ident x = old"
      "concat (map slot_nodes rest) = pre @ new # post"
      by blast
    with f show ?thesis
      by - (rule exI [of _ "slot_nodes f @ pre"], rule exI [of _ x], rule exI [of _ post], simp)
  qed
  show ?case
  proof (cases f)
    case (Single v)
    show ?thesis
    proof (cases "ident v = old")
      case True
      with Single Cons.prems have "fs' = Single new # fs" by simp
      with True Single show ?thesis
        by - (rule exI [of _ "[]"], rule exI [of _ v], rule exI [of _ "concat (map slot_nodes fs)"], simp)
    next
      case False
      with Single Cons.prems obtain rest where "replace_in_fields old new fs = Some rest"
        "fs' = f # rest" by auto
      then show ?thesis by (rule step)
    qed
  next
    case Missing
    with Cons.prems obtain rest where "replace_in_fields old new fs = Some rest"
      "fs' = f # rest" by auto
    then show ?thesis by (rule step)
  next
    case (Items vs)
    show ?thesis
    proof (cases "replace_in_list old new vs")
      case None
      with Items Cons.prems obtain rest where "replace_in_fields old new fs = Some rest"
        "fs' = f # rest" by auto
      then show ?thesis by (rule step)
    next
      case (Some vs')
      with Items Cons.prems have f': "fs' = Items vs' # fs" by simp
      from replace_in_list_Some [OF Some] obtain pre x post where
        "vs = pre @ x # post" "ident x = old" "vs' = pre @ new # post" by blast
      with f' Items show ?thesis
        by - (rule exI [of _ pre], rule exI [of _ x], rule exI [of _ "post @ concat (map slot_nodes fs)"], simp)
    qed
  next
    case (OptItems vs)
    show ?thesis
    proof (cases "replace_in_opt_list old new vs")
      case None
      with OptItems Cons.prems obtain rest where "replace_in_fields old new fs = Some rest"
        "fs' = f # rest" by auto
      then show ?thesis by (rule step)
    next
      case (Some vs')
      with OptItems Cons.prems have f': "fs' = OptItems vs' # fs" by simp
      from replace_in_opt_list_Some [OF Some] obtain pre x post where
        "List.map_filter id vs = pre @ x # post" "ident x = old"
        "List.map_filter id vs' = pre @ new # post" by blast
      with f' OptItems show ?thesis
        by - (rule exI [of _ pre], rule exI [of _ x], rule exI [of _ "post @ concat (map slot_nodes fs)"], simp)
    qed
  qed
qed

lemma replace_in_parents_Some:
  "replace_in_parents old new ps = Some (pid, fs') \<Longrightarrow>
     \<exists>p \<in> set ps. ident p = pid \<and> replace_in_fields old new (fields_of p) = Some fs'"
  by (induction ps) (auto split: option.splits)

lemma replace_in_parents_finds:
  assumes "p \<in> set ps" and "c \<in> set (iter_child_nodes p)" and "ident c = old"
  shows "replace_in_parents old new ps \<noteq> None"
  using assms(1)
proof (induction ps)
  case Nil
  then show ?case by simp
next
  case (Cons q ps)
  show ?case
  proof (cases "replace_in_fields old new (fields_of q)")
    case (Some fs)
    then show ?thesis by simp
  next
    case None
    then have "\<forall>c \<in> set (iter_child_nodes q). ident c \<noteq> old"
      by (simp only: replace_in_fields_None_iff iter_child_nodes_def)
    with assms(2,3) have "p \<noteq> q" by blast
    with Cons.prems have "p \<in> set ps" by simp
    then have "replace_in_parents old new ps \<noteq> None" by (rule Cons.IH)
    with None show ?thesis by simp
  qed
qed

subsection \<open>Assignment to the fields of one object\<close>

lemma set_fields_meta: "meta_of (set_fields obj fs y) = meta_of y"
  by (cases y) simp

lemma set_fields_kind: "kind_of (set_fields obj fs y) = kind_of y"
  by (cases y) simp

lemma set_fields_hit: "ident y = obj \<Longrightarrow> set_fields obj fs y = Node (meta_of y) (kind_of y) fs"
  by (cases y) (simp add: ident_def)

lemma map_filter_id_map:
  "List.map_filter id (map (map_option f) os) = map f (List.map_filter id os)"
  by (induction os) (auto simp: List.map_filter_simps split: option.splits)

lemma slot_nodes_map_slot: "slot_nodes (map_slot f s) = map f (slot_nodes s)"
  by (cases s) (simp_all add: map_filter_id_map)

lemma set_fields_children:
  assumes "ident y \<noteq> obj"
  shows "iter_child_nodes (set_fields obj fs y) = map (set_fields obj fs) (iter_child_nodes y)"
proof (cases y)
  case (Node m k slots)
  have "concat (map slot_nodes (map (map_slot f) ss)) = map f (concat (map slot_nodes ss))"
    for f :: "node \<Rightarrow> node" and ss
    by (induction ss) (simp_all add: slot_nodes_map_slot)
  with Node assms show ?thesis
    by (simp add: iter_child_nodes_def ident_def)
qed

lemma set_slot_nodes: "set (slot_nodes s) = set_slot s"
proof (cases s)
  case (OptItems os)
  have "set (List.map_filter id os) = \<Union> (set_option ` set os)"
    by (induction os) (auto simp: List.map_filter_simps split: option.splits)
  with OptItems show ?thesis by simp
qed simp_all

lemma set_fields_absent:
  "(\<forall>z \<in> nodes_of y. ident z \<noteq> obj) \<Longrightarrow> set_fields obj fs y = y"
proof (induction obj fs y rule: set_fields.induct)
  case (1 obj fs m k slots)
  let ?y = "Node m k slots"
  from "1.prems" nodes_of.root [of ?y] have r: "nid m \<noteq> obj" by (auto simp: ident_def)
  have "set_fields obj fs z = z" if s: "s \<in> set slots" and z: "z \<in> set_slot s" for s z
  proof -
    from s z have "z \<in> set (iter_child_nodes ?y)"
      by (auto simp: iter_child_nodes_def set_slot_nodes)
    with nodes_of.root have zy: "z \<in> nodes_of ?y" by (rule nodes_of.child)
    have "\<forall>w \<in> nodes_of z. ident w \<noteq> obj"
      using "1.prems" nodes_of_trans [OF _ zy] by blast
    with "1.IH" [OF r s z] show ?thesis by blast
  qed
  then have "map (map_slot (set_fields obj fs)) slots = slots"
    by (intro map_idI slot.map_ident_strong) blast
  with r show ?case by simp
qed

subsection \<open>Two walks in step\<close>

lemma find_walk_sim:
  assumes "list_all2 R q q'"
    and P: "\<And>x x'. R x x' \<Longrightarrow> P x' = P x"
    and ch: "\<And>x x'. R x x' \<Longrightarrow> \<not> P x \<Longrightarrow> list_all2 R (iter_child_nodes x) (iter_child_nodes x')"
  shows "rel_option R (find P (walk_queue q)) (find P (walk_queue q'))"
  using assms(1)
proof (induction q arbitrary: q' rule: walk_queue.induct)
  case 1
  then show ?case by simp
next
  case (2 n todo)
  from "2.prems" obtain n' todo' where q': "q' = n' # todo'" and n: "R n n'"
    and t: "list_all2 R todo todo'"
    by (auto simp: list_all2_Cons1)
  show ?case
  proof (cases "P n")
    case True
    with P [OF n] n q' show ?thesis by simp
  next
    case False
    from t ch [OF n False]
    have "list_all2 R (todo @ iter_child_nodes n) (todo' @ iter_child_nodes n')"
      by (rule list_all2_appendI)
    then have "rel_option R (find P (walk_queue (todo @ iter_child_nodes n)))
                 (find P (walk_queue (todo' @ iter_child_nodes n')))"
      by (rule "2.IH")
    with False P [OF n] q' show ?thesis by simp
  qed
qed

subsection \<open>The node at a line, after a replacement\<close>

text \<open>
  In a tree whose objects are all different, a node \<open>a\<close> other than the root is replaced
  by \<open>c'\<close> where it hangs, under its one parent. When \<open>c'\<close> carries the line of \<open>a\<close>, the
  walk of the new tree meets the line of the diagnostic where the walk of the old tree
  met it: at \<open>c'\<close> when the node found was \<open>a\<close>, and at the parent of \<open>a\<close>, with its
  field overwritten, when the node found was that parent.
\<close>

lemma find_node_at_line_after_replace:
  assumes D: "distinct (map ident (walk tree))"
    and root: "lineno (meta_of tree) = None"
    and found: "find_node_at_line tree l = Some n"
    and na: "n = a \<or> a \<in> set (iter_child_nodes n)"
    and lc: "lineno (meta_of c') = lineno (meta_of a)"
  shows "\<exists>obj fs'.
           replace_slot tree (ident a) c' = set_fields obj fs' tree
         \<and> (n = a \<longrightarrow> find_node_at_line (set_fields obj fs' tree) l = Some c')
         \<and> (a \<in> set (iter_child_nodes n) \<longrightarrow>
              replace_in_fields (ident a) c' (fields_of n) = Some fs'
            \<and> find_node_at_line (set_fields obj fs' tree) l
                = Some (Node (meta_of n) (kind_of n) fs'))"
proof -
  define ws where "ws = walk tree"
  define P where "P = (\<lambda>x. lineno (meta_of x) = Some l)"
  have ws: "set ws = nodes_of tree" unfolding ws_def by (rule set_walk)
  have lev: "ws = tree # concat (map iter_child_nodes ws)"
    unfolding ws_def by (rule walk_root_children)
  from D have inj: "inj_on ident (set ws)" and dw: "distinct ws"
    unfolding ws_def by (simp_all add: distinct_map)
  from dw have "distinct (tree # concat (map iter_child_nodes ws))"
    by (subst lev [symmetric])
  then have dc: "distinct (concat (map iter_child_nodes ws))"
    and nr: "tree \<notin> set (concat (map iter_child_nodes ws))" by simp_all
  have same: "x = y" if "x \<in> set ws" "y \<in> set ws" "ident x = ident y" for x y
    using inj_onD [OF inj that(3) that(1) that(2)] .
  have child_ws: "c \<in> set ws" if "x \<in> set ws" "c \<in> set (iter_child_nodes x)" for x c
    using that unfolding ws by (rule nodes_of.child)
  have parent: "x = y"
    if "x \<in> set ws" "y \<in> set ws" "c \<in> set (iter_child_nodes x)" "c \<in> set (iter_child_nodes y)"
    for x y c
    using dc that by (rule concat_map_unique)
  from found have n_ws: "n \<in> set ws" and Pn: "P n"
    unfolding find_node_at_line_def ws_def P_def by (auto simp: find_Some_iff)
  have Proot: "\<not> P tree" unfolding P_def using root by simp
  have a_ws: "a \<in> set ws" using na n_ws child_ws by blast
  have a_root: "a \<noteq> tree"
  proof
    assume e: "a = tree"
    from na show False
    proof
      assume "n = a"
      with Pn Proot e show False by simp
    next
      assume "a \<in> set (iter_child_nodes n)"
      with n_ws e have "tree \<in> set (concat (map iter_child_nodes ws))" by auto
      with nr show False ..
    qed
  qed
  have "a \<in> set (tree # concat (map iter_child_nodes ws))"
    using a_ws by (subst lev [symmetric])
  with a_root obtain p0 where p0: "p0 \<in> set ws" "a \<in> set (iter_child_nodes p0)" by auto
  then have "replace_in_parents (ident a) c' ws \<noteq> None"
    by (rule replace_in_parents_finds) (rule refl)
  then obtain obj fs' where rp: "replace_in_parents (ident a) c' ws = Some (obj, fs')" by auto
  from replace_in_parents_Some [OF rp] obtain p where p: "p \<in> set ws" and ip: "ident p = obj"
    and rf: "replace_in_fields (ident a) c' (fields_of p) = Some fs'" by blast
  from replace_in_fields_Some [OF rf] obtain pre x post where
    chp: "iter_child_nodes p = pre @ x # post" and ix: "ident x = ident a"
    and chp': "concat (map slot_nodes fs') = pre @ c' # post"
    unfolding iter_child_nodes_def by blast
  from chp have "x \<in> set (iter_child_nodes p)" by simp
  with p have "x \<in> set ws" by (rule child_ws)
  with a_ws ix have xa: "x = a" by (rule same [rotated])
  from chp xa have ap: "a \<in> set (iter_child_nodes p)" by simp
  have "distinct (iter_child_nodes p)" using dc p by (rule concat_map_distinct)
  with chp xa have apre: "a \<notin> set pre" and apost: "a \<notin> set post" by simp_all
  define H where "H = set_fields obj fs'"
  define G where "G = (\<lambda>y. if ident y = ident a then c' else H y)"
  have Hp: "H p = Node (meta_of p) (kind_of p) fs'"
    unfolding H_def using ip by (rule set_fields_hit)
  have res: "replace_slot tree (ident a) c' = H tree"
    unfolding replace_slot_def H_def using rp by (simp add: ws_def)
  have G_other: "G y = H y" if "y \<in> set ws" "y \<noteq> a" for y
  proof -
    from that a_ws have "ident y \<noteq> ident a" using same by blast
    then show ?thesis by (simp add: G_def)
  qed
  have G_a: "G a = c'" by (simp add: G_def)
  have below: "H y = y" if y: "y \<in> set (iter_child_nodes p)" for y
    unfolding H_def
  proof (rule set_fields_absent, rule ballI)
    fix z assume z: "z \<in> nodes_of y"
    from p y have "y \<in> nodes_of tree" unfolding ws [symmetric] by (rule child_ws)
    with z have "z \<in> nodes_of tree" by (rule nodes_of_trans)
    then have zw: "z \<in> set ws" by (simp only: ws)
    show "ident z \<noteq> obj"
    proof
      assume "ident z = obj"
      with ip have "ident z = ident p" by simp
      with zw p have "z = p" by (rule same)
      with z have "size p \<le> size y" by (simp add: nodes_of_size)
      with child_size [OF y] show False by simp
    qed
  qed
  have GL: "iter_child_nodes (G x) = map G (iter_child_nodes x)"
    if xw: "x \<in> set ws" and xa': "x \<noteq> a" for x
  proof (cases "ident x = obj")
    case True
    with ip xw p have xp: "x = p" using same by simp
    have "map G pre = pre"
    proof (rule map_idI)
      fix y assume y: "y \<in> set pre"
      with chp have yc: "y \<in> set (iter_child_nodes p)" by simp
      with p have "y \<in> set ws" by (rule child_ws)
      moreover from y apre have "y \<noteq> a" by blast
      ultimately have "G y = H y" by (rule G_other)
      with below [OF yc] show "G y = y" by simp
    qed
    moreover have "map G post = post"
    proof (rule map_idI)
      fix y assume y: "y \<in> set post"
      with chp have yc: "y \<in> set (iter_child_nodes p)" by simp
      with p have "y \<in> set ws" by (rule child_ws)
      moreover from y apost have "y \<noteq> a" by blast
      ultimately have "G y = H y" by (rule G_other)
      with below [OF yc] show "G y = y" by simp
    qed
    ultimately have "map G (iter_child_nodes p) = pre @ c' # post"
      unfolding chp xa by (simp add: G_a)
    moreover have "iter_child_nodes (G p) = pre @ c' # post"
      using G_other [OF p] xa' xp Hp chp' by (simp add: iter_child_nodes_def)
    ultimately show ?thesis unfolding xp by simp
  next
    case False
    then have "iter_child_nodes (H x) = map H (iter_child_nodes x)"
      unfolding H_def by (rule set_fields_children)
    moreover have "map G (iter_child_nodes x) = map H (iter_child_nodes x)"
    proof (rule map_cong [OF refl])
      fix y assume y: "y \<in> set (iter_child_nodes x)"
      with xw have yw: "y \<in> set ws" by (rule child_ws)
      have "y \<noteq> a"
      proof
        assume "y = a"
        with y have "a \<in> set (iter_child_nodes x)" by simp
        with xw p have "x = p" using ap by (rule parent)
        with ip False show False by simp
      qed
      with yw show "G y = H y" by (rule G_other)
    qed
    ultimately show ?thesis using G_other [OF xw xa'] by simp
  qed
  define R where "R = (\<lambda>x x'. x \<in> set ws \<and> x' = G x \<and> (x = a \<longrightarrow> P x))"
  have RP: "P x' = P x" if "R x x'" for x x'
  proof (cases "x = a")
    case True
    with that have "x' = c'" by (simp add: R_def G_a)
    with True lc show ?thesis by (simp add: P_def)
  next
    case False
    with that have "x' = H x" using G_other by (simp add: R_def)
    then show ?thesis by (simp add: P_def H_def set_fields_meta)
  qed
  have Rch: "list_all2 R (iter_child_nodes x) (iter_child_nodes x')"
    if r: "R x x'" and np: "\<not> P x" for x x'
  proof -
    from r np have xw: "x \<in> set ws" and x': "x' = G x" and xa': "x \<noteq> a"
      by (auto simp: R_def)
    have "R y (G y)" if y: "y \<in> set (iter_child_nodes x)" for y
    proof -
      from xw y have yw: "y \<in> set ws" by (rule child_ws)
      have "P y" if e: "y = a"
      proof -
        from na show ?thesis
        proof
          assume "n = a"
          with Pn e show ?thesis by simp
        next
          assume "a \<in> set (iter_child_nodes n)"
          with n_ws xw y e have "n = x" using parent by blast
          with Pn np show ?thesis by simp
        qed
      qed
      with yw show ?thesis by (simp add: R_def)
    qed
    then have "list_all2 R (iter_child_nodes x) (map G (iter_child_nodes x))"
      by (simp add: list_all2_map2 list_all2_same)
    with GL [OF xw xa'] x' show ?thesis by simp
  qed
  have R0: "list_all2 R [tree] [H tree]"
  proof -
    have tw: "tree \<in> set ws" unfolding ws by (rule nodes_of.root)
    with a_root have "G tree = H tree" using G_other by blast
    with tw a_root show ?thesis by (simp add: R_def)
  qed
  from R0 RP Rch have "rel_option R (find P (walk_queue [tree])) (find P (walk_queue [H tree]))"
    by (rule find_walk_sim)
  moreover have "find P (walk_queue [tree]) = Some n"
    using found unfolding find_node_at_line_def P_def walk_def .
  ultimately have fin: "find_node_at_line (H tree) l = Some (G n)"
    unfolding find_node_at_line_def P_def [symmetric] walk_def
    by (auto simp: option_rel_Some1 R_def)
  have 1: "find_node_at_line (H tree) l = Some c'" if "n = a"
    using fin that by (simp add: G_a)
  have 2: "replace_in_fields (ident a) c' (fields_of n) = Some fs'
           \<and> find_node_at_line (H tree) l = Some (Node (meta_of n) (kind_of n) fs')"
    if c: "a \<in> set (iter_child_nodes n)"
  proof -
    from n_ws p c ap have np: "n = p" by (rule parent)
    from child_size [OF c] have "n \<noteq> a" by auto
    with n_ws have "G n = H n" by (rule G_other)
    with fin np Hp rf show ?thesis by simp
  qed
  from res 1 2 show ?thesis unfolding H_def by blast
qed

subsection \<open>Guarded accesses\<close>

lemma tests_is_not_None_checks_none:
  assumes "tests_is_not_None test v"
  shows "checks_none test v"
proof -
  from assms obtain left ops comparators where c: "as_Compare test = Some (left, ops, comparators)"
    and l: "as_Name left = Some v" and o: "ops = [''IsNot'']"
    and m: "map as_Constant comparators = [Some CNone]"
    by (auto simp: tests_is_not_None_def split: option.splits)
  from m obtain c0 where "comparators = [c0]" "as_Constant c0 = Some CNone" by auto
  with c l o show ?thesis by (simp add: checks_none_def)
qed

lemma in_body_of_guard_is_already_guarded:
  assumes "in_body_of_guard tree access v"
  shows "is_already_guarded tree access v"
proof -
  from assms obtain stmt test body orelse item where s: "stmt \<in> nodes_of tree"
    and i: "as_If stmt = Some (test, body, orelse)" and t: "tests_is_not_None test v"
    and b: "item \<in> set body" "access \<in> nodes_of item"
    unfolding in_body_of_guard_def by blast
  from b have "node_in_body access body"
    unfolding node_in_body_def list_ex_iff set_walk by blast
  with i t have "case as_If stmt of
                   Some (test, body, orelse) \<Rightarrow> checks_none test v \<and> node_in_body access body
                 | None \<Rightarrow> False"
    by (simp add: tests_is_not_None_checks_none)
  with s show ?thesis
    unfolding is_already_guarded_def list_ex_iff set_walk by blast
qed

lemma as_Call_not_Attribute: "as_Call node = Some c \<Longrightarrow> as_Attribute node = None"
  by (auto simp: as_Call_def as_Attribute_def
           split: node.splits kind.splits list.splits slot.splits)

lemma guarded_access_unchanged:
  assumes located: "find_node_at_line tree (line error) = Some node"
    and access: "node = access \<or> (\<exists>args kws. as_Call node = Some (access, args, kws))"
    and attr: "as_Attribute access = Some (v, attr)"
    and name: "as_Name v = Some var_name"
    and guarded: "in_body_of_guard tree access var_name"
  shows "OptionalFixer_fix error tree = (tree, False)"
proof -
  have g: "is_already_guarded tree access var_name"
    using guarded by (rule in_body_of_guard_is_already_guarded)
  have a: "fix_optional_attribute_access access tree = (tree, False)"
    using attr name g by (simp add: fix_optional_attribute_access_def)
  from access show ?thesis
  proof
    assume "node = access"
    with located attr a show ?thesis by (simp add: OptionalFixer_fix_def)
  next
    assume "\<exists>args kws. as_Call node = Some (access, args, kws)"
    then obtain args kws where c: "as_Call node = Some (access, args, kws)" by blast
    then have "as_Attribute node = None" by (rule as_Call_not_Attribute)
    with located c attr a show ?thesis
      by (simp add: OptionalFixer_fix_def fix_optional_call_def)
  qed
qed

subsection \<open>A second run\<close>

lemma as_Attribute_fields:
  "as_Attribute a = Some (v, attr) \<Longrightarrow> kind_of a = Attribute attr \<and> fields_of a = [Single v]"
  by (auto simp: as_Attribute_def split: node.splits kind.splits list.splits slot.splits)

lemma as_Call_fields:
  "as_Call n = Some (func, args, kws)
     \<Longrightarrow> kind_of n = Call \<and> fields_of n = [Single func, Items args, Items kws]"
  by (auto simp: as_Call_def split: node.splits kind.splits list.splits slot.splits)

lemma IfExp_not_access: "kind_of c = IfExp \<Longrightarrow> as_Attribute c = None \<and> as_Call c = None"
  by (cases c) (simp add: as_Attribute_def as_Call_def)

lemma copy_location_kind: "kind_of (copy_location new_node old_node) = kind_of new_node"
  by (simp add: copy_location_def)

lemma copy_location_lineno:
  assumes "has_location_attributes (kind_of old_node)"
    and "has_location_attributes (kind_of new_node)"
    and "lineno (meta_of new_node) = None"
  shows "lineno (meta_of (copy_location new_node old_node)) = lineno (meta_of old_node)"
  using assms by (simp add: copy_location_def)

lemma fix_optional_attribute_access_cases:
  assumes "as_Attribute a = Some (v, attr)"
  shows "fix_optional_attribute_access a tree = (tree, False)
       \<or> (\<exists>c'. kind_of c' = IfExp \<and> lineno (meta_of c') = lineno (meta_of a)
               \<and> fix_optional_attribute_access a tree = (replace_slot tree (ident a) c', True))"
proof (cases "as_Name v")
  case None
  with assms show ?thesis by (simp add: fix_optional_attribute_access_def)
next
  case (Some var_name)
  show ?thesis
  proof (cases "is_already_guarded tree a var_name")
    case True
    with assms Some show ?thesis by (simp add: fix_optional_attribute_access_def)
  next
    case False
    define i where "i = fresh_id tree"
    define conditional where
      "conditional = Node (unlocated (i + 3)) IfExp
         [Single (Node (unlocated i) (Compare [''IsNot''])
                    [Single (Node (unlocated (i + 1)) (Name var_name) []),
                     Items [Node (unlocated (i + 2)) (Constant CNone) []]]),
          Single a,
          Single (Node (unlocated (i + 4)) (Constant CNone) [])]"
    define c' where "c' = copy_location conditional a"
    from assms have ka: "kind_of a = Attribute attr" by (simp add: as_Attribute_fields)
    have k: "kind_of c' = IfExp"
      unfolding c'_def copy_location_kind by (simp add: conditional_def)
    have l: "lineno (meta_of c') = lineno (meta_of a)"
      unfolding c'_def
      by (rule copy_location_lineno) (simp_all add: ka conditional_def unlocated_def)
    have "fix_optional_attribute_access a tree = (replace_slot tree (ident a) c', True)"
      using assms Some False
      by (simp add: fix_optional_attribute_access_def OptionalFixer_replace_node_def Let_def
                    c'_def conditional_def i_def)
    with k l show ?thesis by blast
  qed
qed

lemma OptionalFixer_fix_cases:
  "OptionalFixer_fix error tree = (tree, False)
   \<or> (\<exists>n a c'.
         find_node_at_line tree (line error) = Some n
       \<and> (n = a \<and> as_Attribute n \<noteq> None
            \<or> as_Attribute n = None \<and> (\<exists>args kws. as_Call n = Some (a, args, kws)))
       \<and> kind_of c' = IfExp \<and> lineno (meta_of c') = lineno (meta_of a)
       \<and> OptionalFixer_fix error tree = (replace_slot tree (ident a) c', True))"
proof (cases "find_node_at_line tree (line error)")
  case None
  then show ?thesis by (simp add: OptionalFixer_fix_def)
next
  case (Some n)
  show ?thesis
  proof (cases "as_Attribute n")
    case attr: (Some p)
    obtain v attr where "p = (v, attr)" by (cases p)
    with attr have a: "as_Attribute n = Some (v, attr)" by simp
    from Some a have f: "OptionalFixer_fix error tree = fix_optional_attribute_access n tree"
      by (simp add: OptionalFixer_fix_def)
    from fix_optional_attribute_access_cases [OF a, of tree] show ?thesis
    proof
      assume "fix_optional_attribute_access n tree = (tree, False)"
      with f show ?thesis by simp
    next
      assume "\<exists>c'. kind_of c' = IfExp \<and> lineno (meta_of c') = lineno (meta_of n)
               \<and> fix_optional_attribute_access n tree = (replace_slot tree (ident n) c', True)"
      then obtain c' where "kind_of c' = IfExp" "lineno (meta_of c') = lineno (meta_of n)"
        "fix_optional_attribute_access n tree = (replace_slot tree (ident n) c', True)" by blast
      with Some a f show ?thesis by auto
    qed
  next
    case noattr: None
    show ?thesis
    proof (cases "as_Call n")
      case None
      with Some noattr show ?thesis by (simp add: OptionalFixer_fix_def)
    next
      case call: (Some q)
      obtain func args kws where "q = (func, args, kws)" by (cases q)
      with call have c: "as_Call n = Some (func, args, kws)" by simp
      show ?thesis
      proof (cases "as_Attribute func")
        case None
        with Some noattr c show ?thesis
          by (simp add: OptionalFixer_fix_def fix_optional_call_def)
      next
        case fa: (Some p)
        obtain v attr where "p = (v, attr)" by (cases p)
        with fa have a: "as_Attribute func = Some (v, attr)" by simp
        from Some noattr c a
        have f: "OptionalFixer_fix error tree = fix_optional_attribute_access func tree"
          by (simp add: OptionalFixer_fix_def fix_optional_call_def)
        from fix_optional_attribute_access_cases [OF a, of tree] show ?thesis
        proof
          assume "fix_optional_attribute_access func tree = (tree, False)"
          with f show ?thesis by simp
        next
          assume "\<exists>c'. kind_of c' = IfExp \<and> lineno (meta_of c') = lineno (meta_of func)
               \<and> fix_optional_attribute_access func tree
                   = (replace_slot tree (ident func) c', True)"
          then obtain c' where "kind_of c' = IfExp" "lineno (meta_of c') = lineno (meta_of func)"
            "fix_optional_attribute_access func tree = (replace_slot tree (ident func) c', True)"
            by blast
          with Some noattr c f show ?thesis by auto
        qed
      qed
    qed
  qed
qed

lemma second_run_unchanged:
  assumes D: "distinct (map ident (walk tree))"
    and root: "lineno (meta_of tree) = None"
  shows "OptionalFixer_fix error (fst (OptionalFixer_fix error tree))
           = (fst (OptionalFixer_fix error tree), False)"
  using OptionalFixer_fix_cases [of error tree]
proof
  assume "OptionalFixer_fix error tree = (tree, False)"
  then show ?thesis by simp
next
  assume "\<exists>n a c'.
         find_node_at_line tree (line error) = Some n
       \<and> (n = a \<and> as_Attribute n \<noteq> None
            \<or> as_Attribute n = None \<and> (\<exists>args kws. as_Call n = Some (a, args, kws)))
       \<and> kind_of c' = IfExp \<and> lineno (meta_of c') = lineno (meta_of a)
       \<and> OptionalFixer_fix error tree = (replace_slot tree (ident a) c', True)"
  then obtain n a c' where found: "find_node_at_line tree (line error) = Some n"
    and na: "n = a \<and> as_Attribute n \<noteq> None
             \<or> as_Attribute n = None \<and> (\<exists>args kws. as_Call n = Some (a, args, kws))"
    and k: "kind_of c' = IfExp" and lc: "lineno (meta_of c') = lineno (meta_of a)"
    and first: "OptionalFixer_fix error tree = (replace_slot tree (ident a) c', True)"
    by blast
  note no = IfExp_not_access [OF k]
  from na have na': "n = a \<or> a \<in> set (iter_child_nodes n)"
    by (auto simp: iter_child_nodes_def dest: as_Call_fields)
  from find_node_at_line_after_replace [OF D root found na' lc]
  obtain obj fs' where res: "replace_slot tree (ident a) c' = set_fields obj fs' tree"
    and 1: "n = a \<longrightarrow> find_node_at_line (set_fields obj fs' tree) (line error) = Some c'"
    and 2: "a \<in> set (iter_child_nodes n) \<longrightarrow>
              replace_in_fields (ident a) c' (fields_of n) = Some fs'
            \<and> find_node_at_line (set_fields obj fs' tree) (line error)
                = Some (Node (meta_of n) (kind_of n) fs')"
    by blast
  define tree' where "tree' = set_fields obj fs' tree"
  have "OptionalFixer_fix error tree' = (tree', False)"
    using na
  proof
    assume "n = a \<and> as_Attribute n \<noteq> None"
    with 1 have "find_node_at_line tree' (line error) = Some c'" by (simp add: tree'_def)
    with no show ?thesis by (simp add: OptionalFixer_fix_def)
  next
    assume "as_Attribute n = None \<and> (\<exists>args kws. as_Call n = Some (a, args, kws))"
    then obtain args kws where c: "as_Call n = Some (a, args, kws)" by blast
    from as_Call_fields [OF c] have kn: "kind_of n = Call"
      and fn: "fields_of n = [Single a, Items args, Items kws]" by simp_all
    from fn have "a \<in> set (iter_child_nodes n)" by (simp add: iter_child_nodes_def)
    with 2 have rf: "replace_in_fields (ident a) c' (fields_of n) = Some fs'"
      and f: "find_node_at_line tree' (line error) = Some (Node (meta_of n) (kind_of n) fs')"
      by (simp_all add: tree'_def)
    from rf fn have fs': "fs' = [Single c', Items args, Items kws]" by simp
    have "as_Attribute (Node (meta_of n) Call [Single c', Items args, Items kws]) = None"
      "as_Call (Node (meta_of n) Call [Single c', Items args, Items kws]) = Some (c', args, kws)"
      by (simp_all add: as_Attribute_def as_Call_def)
    with f no show ?thesis
      unfolding kn fs' by (simp add: OptionalFixer_fix_def fix_optional_call_def)
  qed
  with first res show ?thesis by (simp add: tree'_def)
qed

text \<open>
  Claim C1, as amended. When the located access on a bare name (the node found at the
  line of the diagnostic, or the function of the call found there) lies in the body of
  an \<open>if\<close> statement, anywhere in the tree, whose test is \<open>v is not None\<close> for that name,
  the fixer returns the tree unchanged and reports that nothing was applied. And the
  fixer never wraps twice: on a parsed tree (every node is an object of its own, and the
  root, a module, carries no line) a second run with the same diagnostic returns the
  tree of the first run unchanged and reports that nothing was applied.
\<close>

theorem OptionalFixer_fix_no_double_wrap:
  "(find_node_at_line tree (line error) = Some node
      \<and> (node = access \<or> (\<exists>args kws. as_Call node = Some (access, args, kws)))
      \<and> as_Attribute access = Some (v, attr)
      \<and> as_Name v = Some var_name
      \<and> in_body_of_guard tree access var_name
    \<longrightarrow> OptionalFixer_fix error tree = (tree, False))
   \<and> (distinct (map ident (walk tree)) \<and> lineno (meta_of tree) = None
    \<longrightarrow> OptionalFixer_fix error (fst (OptionalFixer_fix error tree))
          = (fst (OptionalFixer_fix error tree), False))"
proof (intro conjI impI)
  assume "find_node_at_line tree (line error) = Some node
      \<and> (node = access \<or> (\<exists>args kws. as_Call node = Some (access, args, kws)))
      \<and> as_Attribute access = Some (v, attr)
      \<and> as_Name v = Some var_name
      \<and> in_body_of_guard tree access var_name"
  then show "OptionalFixer_fix error tree = (tree, False)"
    using guarded_access_unchanged [of tree error node access v attr var_name] by blast
next
  assume "distinct (map ident (walk tree)) \<and> lineno (meta_of tree) = None"
  then show "OptionalFixer_fix error (fst (OptionalFixer_fix error tree))
          = (fst (OptionalFixer_fix error tree), False)"
    using second_run_unchanged [of tree error] by blast
qed

theorem OptionalFixer_fix_no_double_wrap_witness:
  "find_node_at_line (module_of [if_user_none ''IsNot'' [assign_foo_user_email] []]) 5 = Some user_email
   \<and> in_body_of_guard (module_of [if_user_none ''IsNot'' [assign_foo_user_email] []]) user_email ''user''
   \<and> OptionalFixer_fix diag_line_5 (module_of [if_user_none ''IsNot'' [assign_foo_user_email] []])
       = (module_of [if_user_none ''IsNot'' [assign_foo_user_email] []], False)
   \<and> distinct (map ident (walk (module_of [assign_foo_user_email])))
   \<and> OptionalFixer_fix diag_line_5 (module_of [assign_foo_user_email])
       = (module_of
            [Node (located 6 4) Assign
               [Items [name_at 7 4 ''y''],
                Single (Node (located 8 4) Call
                  [Single (name_at 9 4 ''foo''),
                   Items [Node (located 15 5) IfExp
                            [Single (Node (unlocated 12) (Compare [''IsNot''])
                                       [Single (Node (unlocated 13) (Name ''user'') []),
                                        Items [Node (unlocated 14) (Constant CNone) []]]),
                             Single user_email,
                             Single (Node (unlocated 16) (Constant CNone) [])]],
                   Items []])]],
          True)
   \<and> OptionalFixer_fix diag_line_5
        (module_of
            [Node (located 6 4) Assign
               [Items [name_at 7 4 ''y''],
                Single (Node (located 8 4) Call
                  [Single (name_at 9 4 ''foo''),
                   Items [Node (located 15 5) IfExp
                            [Single (Node (unlocated 12) (Compare [''IsNot''])
                                       [Single (Node (unlocated 13) (Name ''user'') []),
                                        Items [Node (unlocated 14) (Constant CNone) []]]),
                             Single user_email,
                             Single (Node (unlocated 16) (Constant CNone) [])]],
                   Items []])]])
       = (module_of
            [Node (located 6 4) Assign
               [Items [name_at 7 4 ''y''],
                Single (Node (located 8 4) Call
                  [Single (name_at 9 4 ''foo''),
                   Items [Node (located 15 5) IfExp
                            [Single (Node (unlocated 12) (Compare [''IsNot''])
                                       [Single (Node (unlocated 13) (Name ''user'') []),
                                        Items [Node (unlocated 14) (Constant CNone) []]]),
                             Single user_email,
                             Single (Node (unlocated 16) (Constant CNone) [])]],
                   Items []])]],
          False)"
proof -
  let ?guarded = "module_of [if_user_none ''IsNot'' [assign_foo_user_email] []]"
  let ?plain = "module_of [assign_foo_user_email]"
  let ?wrapped = "module_of
            [Node (located 6 4) Assign
               [Items [name_at 7 4 ''y''],
                Single (Node (located 8 4) Call
                  [Single (name_at 9 4 ''foo''),
                   Items [Node (located 15 5) IfExp
                            [Single (Node (unlocated 12) (Compare [''IsNot''])
                                       [Single (Node (unlocated 13) (Name ''user'') []),
                                        Items [Node (unlocated 14) (Constant CNone) []]]),
                             Single user_email,
                             Single (Node (unlocated 16) (Constant CNone) [])]],
                   Items []])]]"
  have l5: "line diag_line_5 = 5" by (simp add: diag_line_5_def)
  have located: "find_node_at_line ?guarded 5 = Some user_email"
    by code_simp
  have attr: "as_Attribute user_email = Some (name_at 11 5 ''user'', ''email'')"
    by code_simp
  have name: "as_Name (name_at 11 5 ''user'') = Some ''user''"
    by code_simp
  have stmt: "if_user_none ''IsNot'' [assign_foo_user_email] [] \<in> nodes_of ?guarded"
    unfolding set_walk [symmetric] by code_simp
  have as_if: "as_If (if_user_none ''IsNot'' [assign_foo_user_email] [])
                 = Some (user_none_test ''IsNot'', [assign_foo_user_email], [])"
    by code_simp
  have test: "tests_is_not_None (user_none_test ''IsNot'') ''user''"
    by code_simp
  have inside: "user_email \<in> nodes_of assign_foo_user_email"
    unfolding set_walk [symmetric] by code_simp
  from inside have "\<exists>item \<in> set [assign_foo_user_email]. user_email \<in> nodes_of item"
    by simp
  then have "\<exists>test body orelse.
      as_If (if_user_none ''IsNot'' [assign_foo_user_email] []) = Some (test, body, orelse)
      \<and> tests_is_not_None test ''user''
      \<and> (\<exists>item \<in> set body. user_email \<in> nodes_of item)"
    by - (rule exI [of _ "user_none_test ''IsNot''"], rule exI [of _ "[assign_foo_user_email]"],
          rule exI [of _ "[]"], intro conjI as_if test)
  then have guarded: "in_body_of_guard ?guarded user_email ''user''"
    unfolding in_body_of_guard_def by (rule bexI [OF _ stmt])
  have parsed: "distinct (map ident (walk ?plain))"
    by code_simp
  have root: "lineno (meta_of ?plain) = None"
    by code_simp
  have first: "OptionalFixer_fix diag_line_5 ?plain = (?wrapped, True)"
    by code_simp
  from OptionalFixer_fix_no_double_wrap
         [of ?guarded diag_line_5 user_email user_email "name_at 11 5 ''user''" "''email''" "''user''"]
       located attr name guarded
  have one: "OptionalFixer_fix diag_line_5 ?guarded = (?guarded, False)"
    unfolding l5 by blast
  from OptionalFixer_fix_no_double_wrap
         [of ?plain diag_line_5 user_email user_email "name_at 11 5 ''user''" "''email''" "''user''"]
       parsed root
  have "OptionalFixer_fix diag_line_5 (fst (OptionalFixer_fix diag_line_5 ?plain))
          = (fst (OptionalFixer_fix diag_line_5 ?plain), False)"
    by blast
  then have two: "OptionalFixer_fix diag_line_5 ?wrapped = (?wrapped, False)"
    unfolding first fst_conv .
  from located guarded one parsed first two show ?thesis by (intro conjI)
qed

text \<open>
  The claim as stated fails: the access is nested in an \<open>if\<close> statement that tests
  \<open>user is None\<close>, in its else branch, and the fixer wraps it.
\<close>

theorem access_in_else_branch_is_wrapped:
  "as_If (if_user_none ''Is'' [pass_stmt] [assign_foo_user_email])
     = Some (user_none_test ''Is'', [pass_stmt], [assign_foo_user_email])
   \<and> checks_none (user_none_test ''Is'') ''user''
   \<and> user_email \<in> set (walk (if_user_none ''Is'' [pass_stmt] [assign_foo_user_email]))
   \<and> find_node_at_line (module_of [if_user_none ''Is'' [pass_stmt] [assign_foo_user_email]]) 5
       = Some user_email
   \<and> as_Attribute user_email = Some (name_at 11 5 ''user'', ''email'')
   \<and> OptionalFixer_fix diag_line_5 (module_of [if_user_none ''Is'' [pass_stmt] [assign_foo_user_email]])
       = (module_of [if_user_none ''Is'' [pass_stmt]
            [Node (located 6 4) Assign
               [Items [name_at 7 4 ''y''],
                Single (Node (located 8 4) Call
                  [Single (name_at 9 4 ''foo''),
                   Items [Node (located 15 5) IfExp
                            [Single (Node (unlocated 12) (Compare [''IsNot''])
                                       [Single (Node (unlocated 13) (Name ''user'') []),
                                        Items [Node (unlocated 14) (Constant CNone) []]]),
                             Single user_email,
                             Single (Node (unlocated 16) (Constant CNone) [])]],
                   Items []])]]],
          True)"
  by code_simp

end
